theory Spec2Isabelle
  imports Complex_Main
begin

section \<open>Traffic signal and path solvers: decoding, cost matrices, circuit layout\<close>

text \<open>
  The two scripts \<^verbatim>\<open>signal-solver.py\<close> and \<^verbatim>\<open>path-rerouting-solver.py\<close> are embedded
  function by function. A Python number is an integer of any size or a binary64 float; the
  cells of a numpy \<^verbatim>\<open>float64\<close> matrix are binary64 values, and every addition,
  multiplication and division on them rounds to the nearest binary64 value, ties to even,
  with overflow to an infinity. Counts and decoded timings are Python integers and are
  modelled as \<^typ>\<open>int\<close>; list positions are \<^typ>\<open>nat\<close>. A Python exception is a value of
  type \<open>error\<close>, carried in the left summand of the result.
\<close>

subsection \<open>Exceptions\<close>

datatype error =
    IndexError
  | KeyError
  | ZeroDivisionError
  | OverflowError
  | MemoryError
  | NameError
  | ValueError_unexpected_bit char
  | ValueError_empty_max

fun is_ValueError :: "error \<Rightarrow> bool" where
  "is_ValueError (ValueError_unexpected_bit b) = True"
| "is_ValueError ValueError_empty_max = True"
| "is_ValueError e = False"

subsection \<open>Decoding (both scripts)\<close>

text \<open>
  \<^verbatim>\<open>decode_signals\<close>: the dictionary \<^verbatim>\<open>{'0':20, '1':30, '2':60}\<close>, and the loop over the
  characters that appends the looked-up timing or raises \<^verbatim>\<open>ValueError\<close>.
\<close>

definition signal_timings_dict :: "char \<rightharpoonup> int" where
  "signal_timings_dict = [CHR ''0'' \<mapsto> 20, CHR ''1'' \<mapsto> 30, CHR ''2'' \<mapsto> 60]"

fun decode_signals_loop :: "string \<Rightarrow> int list \<Rightarrow> error + int list" where
  "decode_signals_loop [] decoded_timings = Inr decoded_timings"
| "decode_signals_loop (b # rest) decoded_timings =
     (case signal_timings_dict b of
        Some t \<Rightarrow> decode_signals_loop rest (decoded_timings @ [t])
      | None \<Rightarrow> Inl (ValueError_unexpected_bit b))"

definition decode_signals :: "string \<Rightarrow> error + int list" where
  "decode_signals binary_string = decode_signals_loop binary_string []"

text \<open>
  \<^verbatim>\<open>decode_path\<close>: the loop over \<^verbatim>\<open>enumerate(binary_string)\<close> that appends the index of
  every character equal to \<^verbatim>\<open>'1'\<close>. The dictionary \<^verbatim>\<open>intersection_mapping\<close> of the source is
  built and never read.
\<close>

fun decode_path_loop :: "(nat \<times> char) list \<Rightarrow> nat list \<Rightarrow> nat list" where
  "decode_path_loop [] path = path"
| "decode_path_loop ((i, b) # rest) path =
     (if b = CHR ''1'' then decode_path_loop rest (path @ [i])
      else decode_path_loop rest path)"

definition decode_path :: "string \<Rightarrow> nat list" where
  "decode_path binary_string = decode_path_loop (enumerate 0 binary_string) []"

subsection \<open>Lists and loops\<close>

text \<open>
  \<^verbatim>\<open>xs[i]\<close> on a Python list or a numpy array with a non-negative index: the element, or
  \<^verbatim>\<open>IndexError\<close> when the index is not below the length.
\<close>

definition py_get :: "'a list \<Rightarrow> nat \<Rightarrow> error + 'a" where
  "py_get xs i = (if i < length xs then Inr (xs ! i) else Inl IndexError)"

text \<open>
  \<^verbatim>\<open>for i in range(...)\<close> over a body that updates a state and may raise: the indices are
  visited in order and the first exception ends the loop.
\<close>

fun for_range :: "(nat \<Rightarrow> 's \<Rightarrow> error + 's) \<Rightarrow> nat list \<Rightarrow> 's \<Rightarrow> error + 's" where
  "for_range body [] s = Inr s"
| "for_range body (i # rest) s =
     (case body i s of Inl e \<Rightarrow> Inl e | Inr s' \<Rightarrow> for_range body rest s')"


subsection \<open>Binary64 floats and Python numbers\<close>

text \<open>
  A binary64 value is a finite number, an infinity or NaN. The finite values are the reals
  \<open>m * 2 ^ k\<close> with \<open>\<bar>m\<bar> < 2 ^ 53\<close> and \<open>- 1074 \<le> k\<close> below \<open>2 ^ 1024\<close> in magnitude; the
  two zeros are one value here, as the scripts only add, multiply and divide, and a division
  by either zero raises the same exception.
\<close>

datatype float64 = Finite real | PInf | NInf | NaN

text \<open>
  Rounding of a real to binary64, to nearest with ties to even. \<open>exponent x\<close> is the binary
  exponent of the binade of \<open>x\<close>, not below the one of the subnormal numbers; \<open>ulp x\<close> is
  the distance of two neighbouring binary64 values there. A nonzero \<open>x\<close> is scaled by
  \<open>ulp x\<close>, rounded to an integer and scaled back; a result of magnitude \<open>2 ^ 1024\<close> or more
  is an infinity.
\<close>

definition exponent :: "real \<Rightarrow> int" where
  "exponent x = max \<lfloor>log 2 \<bar>x\<bar>\<rfloor> (- 1022)"

definition ulp :: "real \<Rightarrow> real" where
  "ulp x = 2 powr of_int (exponent x - 52)"

definition round_half_even :: "real \<Rightarrow> int" where
  "round_half_even q =
     (let f = \<lfloor>q\<rfloor>; r = q - of_int f
      in if r < 1 / 2 then f else if 1 / 2 < r then f + 1 else if even f then f else f + 1)"

definition round_to_grid :: "real \<Rightarrow> real" where
  "round_to_grid x = (if x = 0 then 0 else of_int (round_half_even (x / ulp x)) * ulp x)"

definition round64 :: "real \<Rightarrow> float64" where
  "round64 x =
     (let m = round_to_grid x
      in if 2 ^ 1024 \<le> m then PInf else if m \<le> - (2 ^ 1024) then NInf else Finite m)"


text \<open>
  Addition, multiplication and division of binary64 values. The division is only used with
  a divisor other than zero: Python raises before it divides by zero.
\<close>

fun fadd :: "float64 \<Rightarrow> float64 \<Rightarrow> float64" where
  "fadd (Finite x) (Finite y) = round64 (x + y)"
| "fadd NaN b = NaN"
| "fadd a NaN = NaN"
| "fadd PInf NInf = NaN"
| "fadd NInf PInf = NaN"
| "fadd PInf b = PInf"
| "fadd a PInf = PInf"
| "fadd NInf b = NInf"
| "fadd a NInf = NInf"

fun fmul :: "float64 \<Rightarrow> float64 \<Rightarrow> float64" where
  "fmul (Finite x) (Finite y) = round64 (x * y)"
| "fmul NaN b = NaN"
| "fmul a NaN = NaN"
| "fmul (Finite x) PInf = (if x = 0 then NaN else if 0 < x then PInf else NInf)"
| "fmul (Finite x) NInf = (if x = 0 then NaN else if 0 < x then NInf else PInf)"
| "fmul PInf (Finite y) = (if y = 0 then NaN else if 0 < y then PInf else NInf)"
| "fmul NInf (Finite y) = (if y = 0 then NaN else if 0 < y then NInf else PInf)"
| "fmul PInf PInf = PInf"
| "fmul PInf NInf = NInf"
| "fmul NInf PInf = NInf"
| "fmul NInf NInf = PInf"

fun fdiv :: "float64 \<Rightarrow> float64 \<Rightarrow> float64" where
  "fdiv (Finite x) (Finite y) = round64 (x / y)"
| "fdiv NaN b = NaN"
| "fdiv a NaN = NaN"
| "fdiv (Finite x) PInf = Finite 0"
| "fdiv (Finite x) NInf = Finite 0"
| "fdiv PInf (Finite y) = (if 0 < y then PInf else NInf)"
| "fdiv NInf (Finite y) = (if 0 < y then NInf else PInf)"
| "fdiv PInf PInf = NaN"
| "fdiv PInf NInf = NaN"
| "fdiv NInf PInf = NaN"
| "fdiv NInf NInf = NaN"

text \<open>
  A Python number: an \<^verbatim>\<open>int\<close> or a \<^verbatim>\<open>float\<close> (a numpy \<^verbatim>\<open>float64\<close> scalar behaves as a
  \<^verbatim>\<open>float\<close> in the operations below). \<open>py_float\<close> is the conversion that arithmetic with a
  float operand applies to the other operand: an integer is rounded to binary64, and one
  too large for a float raises \<^verbatim>\<open>OverflowError\<close>.
\<close>

datatype number = PyInt int | PyFloat float64

fun py_float :: "number \<Rightarrow> error + float64" where
  "py_float (PyFloat x) = Inr x"
| "py_float (PyInt k) =
     (case round64 (of_int k) of Finite m \<Rightarrow> Inr (Finite m) | _ \<Rightarrow> Inl OverflowError)"

text \<open>
  \<^verbatim>\<open>x * y\<close>: exact on two integers; otherwise both operands are floats after conversion and
  the product is rounded.
\<close>

fun py_mul :: "number \<Rightarrow> number \<Rightarrow> error + number" where
  "py_mul (PyInt a) (PyInt b) = Inr (PyInt (a * b))"
| "py_mul x y =
     (case py_float x of Inl e \<Rightarrow> Inl e | Inr a \<Rightarrow>
      case py_float y of Inl e \<Rightarrow> Inl e | Inr b \<Rightarrow> Inr (PyFloat (fmul a b)))"

text \<open>
  \<^verbatim>\<open>x / y\<close> with a float \<open>y\<close>: the dividend is converted, a zero divisor raises
  \<^verbatim>\<open>ZeroDivisionError\<close>, and the quotient is rounded.
\<close>

definition py_truediv :: "number \<Rightarrow> float64 \<Rightarrow> error + float64" where
  "py_truediv x y =
     (case py_float x of Inl e \<Rightarrow> Inl e | Inr a \<Rightarrow>
      if y = Finite 0 then Inl ZeroDivisionError else Inr (fdiv a y))"

subsection \<open>Matrices\<close>

type_synonym matrix = "float64 list list"

text \<open>
  \<^verbatim>\<open>np.zeros((r, c))\<close> allocates \<open>r * c\<close> cells of eight bytes. How many cells the allocator
  grants depends on the machine, so the model takes that number as the parameter
  \<open>memory\<close>; a larger request raises (numpy raises \<^verbatim>\<open>MemoryError\<close>, or \<^verbatim>\<open>ValueError\<close> for
  a shape it cannot index; the model has the one constructor \<open>MemoryError\<close> for both).
\<close>

definition zeros :: "nat \<Rightarrow> nat \<Rightarrow> nat \<Rightarrow> error + matrix" where
  "zeros memory r c =
     (if r * c \<le> memory then Inr (replicate r (replicate c (Finite 0))) else Inl MemoryError)"

text \<open>
  \<^verbatim>\<open>M[i][j] += v\<close> on a numpy \<^verbatim>\<open>float64\<close> matrix, in place; the model returns the new matrix.
  The cell is read, \<open>v\<close> is converted to binary64, and the rounded sum is stored.
\<close>

definition add_at :: "matrix \<Rightarrow> nat \<Rightarrow> nat \<Rightarrow> number \<Rightarrow> error + matrix" where
  "add_at M i j v =
     (if i < length M \<and> j < length (M ! i)
      then (case py_float v of Inl e \<Rightarrow> Inl e
            | Inr x \<Rightarrow> Inr (M[i := (M ! i)[j := fadd (M ! i ! j) x]]))
      else Inl IndexError)"

text \<open>
  The matrix with \<open>N\<close> rows and columns whose entry \<open>[r][c]\<close> is \<open>g r c\<close>, and the first
  \<open>n\<close> diagonal entries of a matrix, which are the entries the circuit construction reads.
\<close>

definition tabulate2 :: "nat \<Rightarrow> (nat \<Rightarrow> nat \<Rightarrow> 'a) \<Rightarrow> 'a list list" where
  "tabulate2 N g = map (\<lambda>r. map (\<lambda>c. g r c) [0..<N]) [0..<N]"

definition diagonal :: "nat \<Rightarrow> matrix \<Rightarrow> float64 list" where
  "diagonal n M = map (\<lambda>i. M ! i ! i) [0..<n]"

subsection \<open>Signal solver: cost matrix\<close>

text \<open>
  One iteration of the loop of \<^verbatim>\<open>create_cost_hamiltonian\<close>: the waiting time
  \<^verbatim>\<open>signal_timings[i] * traffic_flows[i]\<close> is added to entry \<open>[i][i]\<close>, then the penalty 100
  when \<^verbatim>\<open>emergency_flags[i]\<close> holds.
\<close>

definition cost_body ::
  "number list \<Rightarrow> number list \<Rightarrow> bool list \<Rightarrow> nat \<Rightarrow> matrix \<Rightarrow> error + matrix" where
  "cost_body traffic_flows signal_timings emergency_flags i cost_hamiltonian =
     (case py_get signal_timings i of Inl e \<Rightarrow> Inl e | Inr t \<Rightarrow>
      case py_get traffic_flows i of Inl e \<Rightarrow> Inl e | Inr f \<Rightarrow>
      case py_mul t f of Inl e \<Rightarrow> Inl e | Inr waiting_time \<Rightarrow>
      case add_at cost_hamiltonian i i waiting_time of Inl e \<Rightarrow> Inl e | Inr H1 \<Rightarrow>
      case py_get emergency_flags i of Inl e \<Rightarrow> Inl e | Inr flag \<Rightarrow>
      if flag then (let emergency_penalty = PyInt 100 in add_at H1 i i emergency_penalty)
      else Inr H1)"

definition create_cost_hamiltonian ::
  "nat \<Rightarrow> number list \<Rightarrow> number list \<Rightarrow> bool list \<Rightarrow> error + matrix" where
  "create_cost_hamiltonian memory traffic_flows signal_timings emergency_flags =
     (let n = length traffic_flows in
      case zeros memory (2 ^ n) (2 ^ n) of Inl e \<Rightarrow> Inl e | Inr cost_hamiltonian \<Rightarrow>
      for_range (cost_body traffic_flows signal_timings emergency_flags) [0..<n]
        cost_hamiltonian)"

text \<open>
  The value that the loop leaves in a diagonal cell which held \<open>0.0\<close>: the product after its
  conversion to binary64, added to the cell, and 100 added to that when the flag is set.
\<close>

definition product_as_float :: "number \<Rightarrow> number \<Rightarrow> error + float64" where
  "product_as_float t f = (case py_mul t f of Inl e \<Rightarrow> Inl e | Inr w \<Rightarrow> py_float w)"

definition cost_cell :: "float64 \<Rightarrow> bool \<Rightarrow> float64" where
  "cost_cell x flag =
     (if flag then fadd (fadd (Finite 0) x) (Finite 100) else fadd (Finite 0) x)"

subsection \<open>Path solver: travel time and cost matrix\<close>

text \<open>
  The module-level constants \<^verbatim>\<open>distances\<close> (a 3 by 3 numpy array of integers) and
  \<^verbatim>\<open>vehicle_speed\<close>.
\<close>

definition distances :: "int list list" where
  "distances = [[0, 1, 2], [1, 0, 1], [2, 1, 0]]"

definition vehicle_speed :: number where
  "vehicle_speed = PyInt 40"

text \<open>
  \<^verbatim>\<open>calculate_travel_time\<close>: two divisions by a float. The script passes an element of the
  integer array \<^verbatim>\<open>distances\<close> as the distance; it divides as a Python integer does, except
  by a zero divisor, which its only call, with the speed 40, does not produce.
\<close>

definition calculate_travel_time :: "number \<Rightarrow> number \<Rightarrow> error + float64" where
  "calculate_travel_time distance speed =
     (case py_truediv speed (Finite 60) of Inl e \<Rightarrow> Inl e | Inr speed_km_per_min \<Rightarrow>
      py_truediv distance speed_km_per_min)"

text \<open>
  The inner loop of \<^verbatim>\<open>create_path_cost_hamiltonian\<close> over \<open>j\<close>, run for the row \<open>i = start\<close>,
  and the outer loop over \<open>i\<close>. The parameters \<^verbatim>\<open>end\<close> and \<^verbatim>\<open>emergency_flags\<close> are
  accepted and never read. \<^verbatim>\<open>start\<close> is a Python integer compared with the loop index.
\<close>

definition travel_body :: "int \<Rightarrow> nat \<Rightarrow> nat \<Rightarrow> matrix \<Rightarrow> error + matrix" where
  "travel_body start i j cost_hamiltonian =
     (if int j \<noteq> start
      then (case py_get distances i of Inl e \<Rightarrow> Inl e | Inr row \<Rightarrow>
            case py_get row j of Inl e \<Rightarrow> Inl e | Inr d \<Rightarrow>
            case calculate_travel_time (PyInt d) vehicle_speed of Inl e \<Rightarrow> Inl e
            | Inr travel_time \<Rightarrow> add_at cost_hamiltonian i j (PyFloat travel_time))
      else Inr cost_hamiltonian)"

definition path_cost_body ::
  "int \<Rightarrow> number list \<Rightarrow> number list \<Rightarrow> nat \<Rightarrow> nat \<Rightarrow> matrix \<Rightarrow> error + matrix" where
  "path_cost_body start traffic_flows signal_timings n i cost_hamiltonian =
     (if int i = start
      then (case py_get signal_timings i of Inl e \<Rightarrow> Inl e | Inr t \<Rightarrow>
            case py_get traffic_flows i of Inl e \<Rightarrow> Inl e | Inr f \<Rightarrow>
            case py_mul t f of Inl e \<Rightarrow> Inl e | Inr waiting_time \<Rightarrow>
            case add_at cost_hamiltonian i i waiting_time of Inl e \<Rightarrow> Inl e | Inr H1 \<Rightarrow>
            for_range (travel_body start i) [0..<n] H1)
      else Inr cost_hamiltonian)"

definition create_path_cost_hamiltonian ::
  "nat \<Rightarrow> int \<Rightarrow> int \<Rightarrow> number list \<Rightarrow> number list \<Rightarrow> bool list \<Rightarrow> error + matrix" where
  "create_path_cost_hamiltonian memory start end_node traffic_flows signal_timings
       emergency_flags =
     (let n = length traffic_flows in
      case zeros memory (2 ^ n) (2 ^ n) of Inl e \<Rightarrow> Inl e | Inr cost_hamiltonian \<Rightarrow>
      for_range (path_cost_body start traffic_flows signal_timings n) [0..<n]
        cost_hamiltonian)"

text \<open>
  For the row \<open>i\<close> and the columns below \<open>k\<close>: every read of \<^verbatim>\<open>distances[i][j]\<close> that the inner
  loop makes is inside the table. And the row \<open>start\<close> that the loops leave behind when the
  waiting time added is \<open>x\<close>: that sum in column \<open>start\<close>, the travel time added to \<open>0.0\<close> in
  the other columns below \<open>n\<close>.
\<close>

definition reads_ok :: "nat \<Rightarrow> nat \<Rightarrow> int \<Rightarrow> bool" where
  "reads_ok i k start \<longleftrightarrow>
     (\<forall>j<k. int j \<noteq> start \<longrightarrow> i < length distances \<and> j < length (distances ! i))"

definition travel_time_40 :: "int \<Rightarrow> float64" where
  "travel_time_40 d = fdiv (Finite (of_int d)) (fdiv (Finite 40) (Finite 60))"

definition start_row :: "float64 \<Rightarrow> nat \<Rightarrow> nat \<Rightarrow> nat \<Rightarrow> float64" where
  "start_row x n s c =
     (if c = s then fadd (Finite 0) x
      else if c < n then fadd (Finite 0) (travel_time_40 (distances ! s ! c)) else Finite 0)"

subsection \<open>Circuit construction (both scripts)\<close>

text \<open>
  The gates appended to the \<^verbatim>\<open>QuantumCircuit\<close>, in order. \<^verbatim>\<open>measure_all\<close> is one entry. The
  simulator that runs the circuit is outside the scripts and is not modelled. \<^verbatim>\<open>np.pi\<close> is
  the binary64 value nearest to \<open>pi\<close>, and \<^verbatim>\<open>np.pi / 2\<close> its quotient by 2.
\<close>

datatype gate = Hadamard nat | RZ float64 nat | RX float64 nat | MeasureAll

definition np_pi :: float64 where
  "np_pi = round64 pi"

definition rotation_body :: "matrix \<Rightarrow> nat \<Rightarrow> gate list \<Rightarrow> error + gate list" where
  "rotation_body cost_hamiltonian i qaoa_circuit =
     (case py_get cost_hamiltonian i of Inl e \<Rightarrow> Inl e | Inr row \<Rightarrow>
      case py_get row i of Inl e \<Rightarrow> Inl e | Inr angle \<Rightarrow>
      Inr (qaoa_circuit @ [RZ angle i, RX (fdiv np_pi (Finite 2)) i]))"

text \<open>
  The lines of \<^verbatim>\<open>qaoa_traffic_optimization\<close> and \<^verbatim>\<open>qaoa_path_optimization\<close> from
  \<^verbatim>\<open>QuantumCircuit(n)\<close> to \<^verbatim>\<open>measure_all()\<close>; they are the same in both functions.
  \<^verbatim>\<open>range(p)\<close> is empty for \<open>p \<le> 0\<close>.
\<close>

definition qaoa_circuit_of :: "nat \<Rightarrow> matrix \<Rightarrow> int \<Rightarrow> error + gate list" where
  "qaoa_circuit_of n cost_hamiltonian p =
     (case for_range (\<lambda>layer. for_range (rotation_body cost_hamiltonian) [0..<n])
             [0..<nat p] (map Hadamard [0..<n]) of
        Inl e \<Rightarrow> Inl e
      | Inr qaoa_circuit \<Rightarrow> Inr (qaoa_circuit @ [MeasureAll]))"

text \<open>The circuit each function hands to the simulator.\<close>

definition qaoa_traffic_optimization_circuit ::
  "nat \<Rightarrow> number list \<Rightarrow> number list \<Rightarrow> bool list \<Rightarrow> int \<Rightarrow> error + gate list" where
  "qaoa_traffic_optimization_circuit memory traffic_flows signal_timings emergency_flags p =
     (let n = length traffic_flows in
      case create_cost_hamiltonian memory traffic_flows signal_timings emergency_flags of
        Inl e \<Rightarrow> Inl e
      | Inr cost_hamiltonian \<Rightarrow> qaoa_circuit_of n cost_hamiltonian p)"

definition qaoa_path_optimization_circuit ::
  "nat \<Rightarrow> int \<Rightarrow> int \<Rightarrow> number list \<Rightarrow> number list \<Rightarrow> bool list \<Rightarrow> int
     \<Rightarrow> error + gate list" where
  "qaoa_path_optimization_circuit memory start end_node traffic_flows signal_timings
       emergency_flags p =
     (let n = length traffic_flows in
      case create_path_cost_hamiltonian memory start end_node traffic_flows signal_timings
             emergency_flags of
        Inl e \<Rightarrow> Inl e
      | Inr cost_hamiltonian \<Rightarrow> qaoa_circuit_of n cost_hamiltonian p)"

subsection \<open>Choice of the bit-string to decode (both scripts)\<close>

text \<open>
  The result of the simulator is a Python dictionary from bit-strings to counts; it is an
  association list in insertion order, with \<^const>\<open>map_of\<close> as lookup. \<^verbatim>\<open>max\<close> of an empty list
  raises \<^verbatim>\<open>ValueError\<close>. The loop takes the first key whose count is the maximum and
  breaks; a loop that ends without a hit leaves the variable unbound.
\<close>

fun py_max :: "int list \<Rightarrow> error + int" where
  "py_max [] = Inl ValueError_empty_max"
| "py_max (x # xs) = Inr (fold max xs x)"

fun first_with_count :: "(string \<times> int) list \<Rightarrow> string list \<Rightarrow> int \<Rightarrow> error + string" where
  "first_with_count optimization_result [] v = Inl NameError"
| "first_with_count optimization_result (i # rest) v =
     (case map_of optimization_result i of
        None \<Rightarrow> Inl KeyError
      | Some c \<Rightarrow> if c = v then Inr i else first_with_count optimization_result rest v)"

definition optimum_key :: "(string \<times> int) list \<Rightarrow> error + string" where
  "optimum_key optimization_result =
     (case py_max (map snd optimization_result) of
        Inl e \<Rightarrow> Inl e
      | Inr optimum_value \<Rightarrow>
          first_with_count optimization_result (map fst optimization_result) optimum_value)"


text \<open>
  The last lines of the two scripts: the chosen bit-string is decoded, and an exception of
  either step ends the run, as no \<^verbatim>\<open>try\<close> surrounds them.
\<close>

definition signal_main :: "(string \<times> int) list \<Rightarrow> error + int list" where
  "signal_main optimization_result =
     (case optimum_key optimization_result of
        Inl e \<Rightarrow> Inl e
      | Inr optimum_signal \<Rightarrow> decode_signals optimum_signal)"

definition path_main :: "(string \<times> int) list \<Rightarrow> error + nat list" where
  "path_main optimization_result =
     (case optimum_key optimization_result of
        Inl e \<Rightarrow> Inl e
      | Inr optimum_path \<Rightarrow> Inr (decode_path optimum_path))"

section \<open>Properties\<close>

subsection \<open>Decoding\<close>

lemma signal_timings_dict_Some:
  "signal_timings_dict c = Some t \<longleftrightarrow>
     (c = CHR ''0'' \<and> t = 20) \<or> (c = CHR ''1'' \<and> t = 30) \<or> (c = CHR ''2'' \<and> t = 60)"
  by (auto simp: signal_timings_dict_def)

lemma signal_timings_dict_None:
  "signal_timings_dict c = None \<longleftrightarrow> c \<notin> {CHR ''0'', CHR ''1'', CHR ''2''}"
  by (auto simp: signal_timings_dict_def)

lemma decode_signals_loop_ok:
  "set s \<subseteq> {CHR ''0'', CHR ''1'', CHR ''2''} \<Longrightarrow>
   decode_signals_loop s acc = Inr (acc @ map (\<lambda>c. the (signal_timings_dict c)) s)"
proof (induction s arbitrary: acc)
  case Nil
  then show ?case by simp
next
  case (Cons c s)
  from Cons.prems have "signal_timings_dict c \<noteq> None"
    by (simp add: signal_timings_dict_None)
  then obtain t where t: "signal_timings_dict c = Some t" by blast
  from Cons.prems have "set s \<subseteq> {CHR ''0'', CHR ''1'', CHR ''2''}" by simp
  from Cons.IH [OF this] t show ?case by simp
qed

lemma decode_signals_loop_bad:
  "\<not> set s \<subseteq> {CHR ''0'', CHR ''1'', CHR ''2''} \<Longrightarrow>
   \<exists>b. b \<in> set s \<and> b \<notin> {CHR ''0'', CHR ''1'', CHR ''2''} \<and>
       decode_signals_loop s acc = Inl (ValueError_unexpected_bit b)"
proof (induction s arbitrary: acc)
  case Nil
  then show ?case by simp
next
  case (Cons c s)
  show ?case
  proof (cases "signal_timings_dict c")
    case None
    then have "c \<notin> {CHR ''0'', CHR ''1'', CHR ''2''}"
      using signal_timings_dict_None [of c] by blast
    moreover from None
    have "decode_signals_loop (c # s) acc = Inl (ValueError_unexpected_bit c)"
      by simp
    ultimately show ?thesis by (intro exI [of _ c]) simp
  next
    case (Some t)
    then have "c \<in> {CHR ''0'', CHR ''1'', CHR ''2''}"
      by (auto simp: signal_timings_dict_Some)
    with Cons.prems have "\<not> set s \<subseteq> {CHR ''0'', CHR ''1'', CHR ''2''}" by auto
    from Cons.IH [OF this, of "acc @ [t]"] Some show ?thesis by auto
  qed
qed

lemma decode_path_loop_filter:
  "decode_path_loop ps path = path @ map fst (filter (\<lambda>p. snd p = CHR ''1'') ps)"
  by (induction ps path rule: decode_path_loop.induct) auto

lemma enumerate_filter_snd:
  "map fst (filter (\<lambda>p. snd p = c) (enumerate n s)) =
   filter (\<lambda>i. s ! (i - n) = c) [n..<n + length s]"
proof (induction s arbitrary: n)
  case Nil
  then show ?case by simp
next
  case (Cons x xs)
  let ?rest = "[Suc n..<Suc n + length xs]"
  have tl: "filter (\<lambda>i. (x # xs) ! (i - n) = c) ?rest = filter (\<lambda>i. xs ! (i - Suc n) = c) ?rest"
    by (rule filter_cong) (auto simp: nth_Cons')
  have range: "[n..<n + length (x # xs)] = n # ?rest"
    by (subst upt_conv_Cons) simp_all
  have "map fst (filter (\<lambda>p. snd p = c) (enumerate n (x # xs)))
        = (if x = c then [n] else []) @ map fst (filter (\<lambda>p. snd p = c) (enumerate (Suc n) xs))"
    by simp
  also have "\<dots> = (if x = c then [n] else []) @ filter (\<lambda>i. xs ! (i - Suc n) = c) ?rest"
    by (simp only: Cons.IH)
  also have "\<dots> = (if x = c then [n] else []) @ filter (\<lambda>i. (x # xs) ! (i - n) = c) ?rest"
    by (simp only: tl)
  also have "\<dots> = filter (\<lambda>i. (x # xs) ! (i - n) = c) (n # ?rest)"
    by simp
  finally show ?case by (simp only: range)
qed

lemma decode_signals_Inr_iff:
  "(\<exists>ts. decode_signals s = Inr ts) \<longleftrightarrow> set s \<subseteq> {CHR ''0'', CHR ''1'', CHR ''2''}"
proof
  assume "\<exists>ts. decode_signals s = Inr ts"
  then obtain ts where ts: "decode_signals_loop s [] = Inr ts"
    by (auto simp: decode_signals_def)
  show "set s \<subseteq> {CHR ''0'', CHR ''1'', CHR ''2''}"
  proof (rule ccontr)
    assume "\<not> set s \<subseteq> {CHR ''0'', CHR ''1'', CHR ''2''}"
    from decode_signals_loop_bad [OF this, of "[]"] ts show False by auto
  qed
next
  assume "set s \<subseteq> {CHR ''0'', CHR ''1'', CHR ''2''}"
  then show "\<exists>ts. decode_signals s = Inr ts"
    using decode_signals_loop_ok [of s "[]"] by (simp add: decode_signals_def)
qed

lemma the_signal_timings_dict:
  "c \<in> {CHR ''0'', CHR ''1'', CHR ''2''} \<Longrightarrow>
   the (signal_timings_dict c) = (if c = CHR ''0'' then 20 else if c = CHR ''1'' then 30 else 60)"
  by (auto simp: signal_timings_dict_def)

lemma the_signal_timings_dict_range:
  "c \<in> {CHR ''0'', CHR ''1'', CHR ''2''} \<Longrightarrow> the (signal_timings_dict c) \<in> {20, 30, 60}"
  by (auto simp: signal_timings_dict_def)

text \<open>
  Claim C2. On a string over \<open>{'0','1','2'}\<close>, \<open>decode_signals\<close> returns the characters
  mapped in order through \<open>'0' \<mapsto> 20\<close>, \<open>'1' \<mapsto> 30\<close>, \<open>'2' \<mapsto> 60\<close>; it raises
  \<^verbatim>\<open>ValueError\<close> exactly when some character lies outside that alphabet, and no other
  exception ever; \<open>"012"\<close> gives \<open>[20, 30, 60]\<close> and \<open>"3"\<close> raises.
\<close>

theorem decode_signals_map_or_ValueError:
  "(set s \<subseteq> {CHR ''0'', CHR ''1'', CHR ''2''} \<longrightarrow>
      decode_signals s =
        Inr (map (\<lambda>c. if c = CHR ''0'' then 20 else if c = CHR ''1'' then 30 else 60) s))
   \<and> ((\<exists>e. decode_signals s = Inl e \<and> is_ValueError e) \<longleftrightarrow>
        \<not> set s \<subseteq> {CHR ''0'', CHR ''1'', CHR ''2''})
   \<and> (\<forall>e. decode_signals s = Inl e \<longrightarrow> is_ValueError e)
   \<and> decode_signals ''012'' = Inr [20, 30, 60]
   \<and> decode_signals ''3'' = Inl (ValueError_unexpected_bit CHR ''3'')"
proof (intro conjI)
  show "set s \<subseteq> {CHR ''0'', CHR ''1'', CHR ''2''} \<longrightarrow>
      decode_signals s =
        Inr (map (\<lambda>c. if c = CHR ''0'' then 20 else if c = CHR ''1'' then 30 else 60) s)"
  proof
    assume ok: "set s \<subseteq> {CHR ''0'', CHR ''1'', CHR ''2''}"
    have "map (\<lambda>c. the (signal_timings_dict c)) s =
          map (\<lambda>c. if c = CHR ''0'' then 20 else if c = CHR ''1'' then 30 else 60) s"
      using ok by (intro map_cong refl the_signal_timings_dict) blast
    with decode_signals_loop_ok [OF ok, of "[]"]
    show "decode_signals s =
        Inr (map (\<lambda>c. if c = CHR ''0'' then 20 else if c = CHR ''1'' then 30 else 60) s)"
      by (simp add: decode_signals_def)
  qed
  show "(\<exists>e. decode_signals s = Inl e \<and> is_ValueError e) \<longleftrightarrow>
        \<not> set s \<subseteq> {CHR ''0'', CHR ''1'', CHR ''2''}"
  proof
    assume "\<exists>e. decode_signals s = Inl e \<and> is_ValueError e"
    then have "\<not> (\<exists>ts. decode_signals s = Inr ts)" by auto
    then show "\<not> set s \<subseteq> {CHR ''0'', CHR ''1'', CHR ''2''}"
      using decode_signals_Inr_iff [of s] by blast
  next
    assume "\<not> set s \<subseteq> {CHR ''0'', CHR ''1'', CHR ''2''}"
    from decode_signals_loop_bad [OF this, of "[]"]
    obtain b where "decode_signals s = Inl (ValueError_unexpected_bit b)"
      by (auto simp: decode_signals_def)
    then show "\<exists>e. decode_signals s = Inl e \<and> is_ValueError e" by simp
  qed
  show "\<forall>e. decode_signals s = Inl e \<longrightarrow> is_ValueError e"
  proof (intro allI impI)
    fix e assume e: "decode_signals s = Inl e"
    then have "\<not> (\<exists>ts. decode_signals s = Inr ts)" by simp
    then have "\<not> set s \<subseteq> {CHR ''0'', CHR ''1'', CHR ''2''}"
      using decode_signals_Inr_iff [of s] by blast
    from decode_signals_loop_bad [OF this, of "[]"] e
    show "is_ValueError e" by (auto simp: decode_signals_def)
  qed
  show "decode_signals ''012'' = Inr [20, 30, 60]"
    by (simp add: decode_signals_def signal_timings_dict_def)
  show "decode_signals ''3'' = Inl (ValueError_unexpected_bit CHR ''3'')"
    by (simp add: decode_signals_def signal_timings_dict_def)
qed

theorem decode_signals_map_or_ValueError_witness:
  "set ''2010'' \<subseteq> {CHR ''0'', CHR ''1'', CHR ''2''}
   \<and> decode_signals ''2010'' = Inr [60, 20, 30, 20]
   \<and> \<not> set ''0a1'' \<subseteq> {CHR ''0'', CHR ''1'', CHR ''2''}
   \<and> (\<exists>e. decode_signals ''0a1'' = Inl e \<and> is_ValueError e)"
proof -
  have ok: "set ''2010'' \<subseteq> {CHR ''0'', CHR ''1'', CHR ''2''}" by simp
  have bad: "\<not> set ''0a1'' \<subseteq> {CHR ''0'', CHR ''1'', CHR ''2''}" by simp
  from decode_signals_map_or_ValueError [of "''2010''"] ok
  have "decode_signals ''2010'' =
        Inr (map (\<lambda>c. if c = CHR ''0'' then 20 else if c = CHR ''1'' then 30 else 60) ''2010'')"
    by blast
  then have r: "decode_signals ''2010'' = Inr [60, 20, 30, 20]" by simp
  from decode_signals_map_or_ValueError [of "''0a1''"] bad
  have e: "\<exists>e. decode_signals ''0a1'' = Inl e \<and> is_ValueError e" by blast
  from ok r bad e show ?thesis by blast
qed

text \<open>
  Claim C3. \<open>decode_path s\<close> is the list of the positions \<open>i\<close> with \<open>s[i] = '1'\<close>, in
  increasing order; \<open>"000"\<close> gives the empty list and \<open>"101"\<close> gives \<open>[0, 2]\<close>.
\<close>

theorem decode_path_positions_of_ones:
  "decode_path s = filter (\<lambda>i. s ! i = CHR ''1'') [0..<length s]
   \<and> decode_path ''000'' = []
   \<and> decode_path ''101'' = [0, 2]"
proof (intro conjI)
  show "decode_path s = filter (\<lambda>i. s ! i = CHR ''1'') [0..<length s]"
    using enumerate_filter_snd [of "CHR ''1''" 0 s]
    by (simp add: decode_path_def decode_path_loop_filter)
  show "decode_path ''000'' = []" by (simp add: decode_path_def)
  show "decode_path ''101'' = [0, 2]" by (simp add: decode_path_def)
qed

text \<open>
  Claim C10. When \<open>decode_signals\<close> returns a list, the list is as long as the input
  string and each of its elements is 20, 30 or 60; the empty string gives the empty list.
\<close>

theorem decode_signals_length_and_range:
  "(decode_signals s = Inr ts \<longrightarrow> length ts = length s \<and> set ts \<subseteq> {20, 30, 60})
   \<and> decode_signals [] = Inr []"
proof (intro conjI impI)
  assume r: "decode_signals s = Inr ts"
  then have ok: "set s \<subseteq> {CHR ''0'', CHR ''1'', CHR ''2''}"
    using decode_signals_Inr_iff [of s] by blast
  from decode_signals_loop_ok [OF ok, of "[]"] r
  have ts: "ts = map (\<lambda>c. the (signal_timings_dict c)) s"
    by (simp add: decode_signals_def)
  show "length ts = length s" by (simp add: ts)
  have "\<forall>c\<in>set s. the (signal_timings_dict c) \<in> {20, 30, 60}"
    using ok the_signal_timings_dict_range by blast
  then show "set ts \<subseteq> {20, 30, 60}"
    unfolding ts by (simp add: image_subset_iff)
next
  show "decode_signals [] = Inr []" by (simp add: decode_signals_def)
qed

theorem decode_signals_length_and_range_witness:
  "decode_signals ''1202'' = Inr [30, 60, 20, 60]
   \<and> length [30, 60, 20, 60 :: int] = length ''1202''
   \<and> set [30, 60, 20, 60 :: int] \<subseteq> {20, 30, 60}"
proof -
  have r: "decode_signals ''1202'' = Inr [30, 60, 20, 60]"
    by (simp add: decode_signals_def signal_timings_dict_def)
  from decode_signals_length_and_range [of "''1202''" "[30, 60, 20, 60]"] r
  show ?thesis by simp
qed


subsection \<open>Rounding to binary64\<close>

lemma exponent_eq:
  assumes "2 powr of_int e \<le> \<bar>x\<bar>" "\<bar>x\<bar> < 2 powr of_int (e + 1)" "- 1022 \<le> e"
  shows "exponent x = e"
proof -
  have pos: "0 < \<bar>x\<bar>" using assms(1) by (smt (verit) powr_gt_zero)
  have "\<lfloor>log 2 \<bar>x\<bar>\<rfloor> = e"
    using floor_log_eq_powr_iff [of "\<bar>x\<bar>" 2 e] pos assms(1,2) by simp
  thus ?thesis using assms(3) by (simp add: exponent_def)
qed


lemma exponent_ge: "- 1022 \<le> exponent x"
  by (simp add: exponent_def)

lemma abs_less_exponent:
  assumes "x \<noteq> 0"
  shows "\<bar>x\<bar> < 2 powr of_int (exponent x + 1)"
proof -
  have pos: "0 < \<bar>x\<bar>" using assms by simp
  have "\<bar>x\<bar> < 2 powr of_int (\<lfloor>log 2 \<bar>x\<bar>\<rfloor> + 1)"
    using floor_log_eq_powr_iff [of "\<bar>x\<bar>" 2 "\<lfloor>log 2 \<bar>x\<bar>\<rfloor>"] pos by simp
  also have "\<dots> \<le> 2 powr of_int (exponent x + 1)"
    by (simp add: exponent_def)
  finally show ?thesis .
qed



lemma round_half_even_of_int: "round_half_even (of_int n) = n"
  by (simp add: round_half_even_def)

lemma round_half_even_ge:
  assumes "of_int m \<le> q"
  shows "m \<le> round_half_even q"
proof -
  have "m \<le> \<lfloor>q\<rfloor>" using assms by (simp add: le_floor_iff)
  thus ?thesis by (simp add: round_half_even_def Let_def)
qed

lemma round_half_even_le:
  assumes "q \<le> of_int m"
  shows "round_half_even q \<le> m"
proof (cases "q = of_int m")
  case True thus ?thesis by (simp add: round_half_even_of_int)
next
  case False
  hence "q < of_int m" using assms by simp
  hence "\<lfloor>q\<rfloor> < m" by (simp add: floor_less_iff)
  thus ?thesis by (simp add: round_half_even_def Let_def)
qed

lemma ulp_pos: "0 < ulp x"
  by (simp add: ulp_def)

lemma round_to_grid_fixed:
  assumes x: "x = of_int n * 2 powr of_int k" and n: "\<bar>n\<bar> < 2 ^ 53" and k: "- 1074 \<le> k"
  shows "round_to_grid x = x"
proof (cases "x = 0")
  case True thus ?thesis by (simp add: round_to_grid_def)
next
  case False
  define e where "e = exponent x"
  have n0: "n \<noteq> 0" using False x by auto
  have pos: "0 < \<bar>x\<bar>" using False by simp
  have "\<bar>x\<bar> = of_int \<bar>n\<bar> * 2 powr of_int k" by (simp add: x abs_mult)
  also have "\<dots> < 2 ^ 53 * 2 powr of_int k"
  proof -
    have "(of_int \<bar>n\<bar> :: real) < of_int (2 ^ 53)" using n by (simp only: of_int_less_iff)
    thus ?thesis by simp
  qed
  also have "\<dots> = 2 powr of_int (k + 53)"
    by (simp add: powr_add)
  finally have ub: "\<bar>x\<bar> < 2 powr of_int (k + 53)" .
  have "log 2 \<bar>x\<bar> < of_int (k + 53)"
    using ub pos by (simp add: log_less_iff)
  hence "\<lfloor>log 2 \<bar>x\<bar>\<rfloor> < k + 53" by linarith
  hence ek: "e - 52 \<le> k" using k by (simp add: e_def exponent_def)
  define u where "u = ulp x"
  have upos: "0 < u" by (simp add: u_def ulp_pos)
  define j where "j = nat (k - (e - 52))"
  have kj: "k = (e - 52) + int j" using ek by (simp add: j_def)
  have "(2::real) powr of_int k = 2 powr of_int (e - 52) * 2 powr of_int (int j)"
    by (simp only: kj of_int_add powr_add)
  also have "2 powr of_int (int j) = (2::real) ^ j"
    by (simp add: powr_realpow)
  finally have pk: "2 powr of_int k = u * 2 ^ j"
    by (simp add: u_def ulp_def e_def)
  have xu: "x = of_int (n * 2 ^ j) * u"
    by (simp only: x pk) simp
  have q: "x / u = of_int (n * 2 ^ j)"
    using upos by (simp only: xu) simp
  have "round_half_even (x / u) = n * 2 ^ j"
    by (simp only: q round_half_even_of_int)
  hence "round_to_grid x = of_int (n * 2 ^ j) * u"
    using False by (simp add: round_to_grid_def u_def)
  also have "\<dots> = x" by (simp only: xu)
  finally show ?thesis .
qed


lemma round64_fixed:
  assumes "x = of_int n * 2 powr of_int k" "\<bar>n\<bar> < 2 ^ 53" "- 1074 \<le> k" "\<bar>x\<bar> < 2 ^ 1024"
  shows "round64 x = Finite x"
proof -
  have "round_to_grid x = x" using assms(1-3) by (rule round_to_grid_fixed)
  moreover have "\<not> 2 ^ 1024 \<le> x" "\<not> x \<le> - (2 ^ 1024)" using assms(4) by linarith+
  ultimately show ?thesis by (simp only: round64_def Let_def if_False)
qed

lemma round_to_grid_of_int:
  assumes "\<bar>n\<bar> \<le> 2 ^ 53"
  shows "round_to_grid (of_int n) = of_int n"
proof (cases "\<bar>n\<bar> < 2 ^ 53")
  case True
  show ?thesis
    by (rule round_to_grid_fixed [where n = n and k = 0]) (use True in simp_all)
next
  case False
  hence "n = 2 ^ 53 \<or> n = - (2 ^ 53)" using assms by linarith
  thus ?thesis
  proof
    assume n: "n = 2 ^ 53"
    show ?thesis
      by (rule round_to_grid_fixed [where n = "2 ^ 52" and k = 1]) (simp_all add: n)
  next
    assume n: "n = - (2 ^ 53)"
    show ?thesis
      by (rule round_to_grid_fixed [where n = "- (2 ^ 52)" and k = 1]) (simp_all add: n)
  qed
qed

lemma round64_of_int:
  assumes "\<bar>n\<bar> \<le> 2 ^ 53"
  shows "round64 (of_int n) = Finite (of_int n)"
proof -
  have g: "round_to_grid (real_of_int n) = of_int n" using assms by (rule round_to_grid_of_int)
  have "\<bar>real_of_int n\<bar> \<le> of_int (2 ^ 53)"
    using assms by (simp only: of_int_abs [symmetric] of_int_le_iff)
  hence "\<bar>real_of_int n\<bar> < 2 ^ 1024" by simp
  hence "\<not> 2 ^ 1024 \<le> real_of_int n" "\<not> real_of_int n \<le> - (2 ^ 1024)" by linarith+
  thus ?thesis by (simp only: round64_def Let_def g if_False)
qed


lemma round_to_grid_form:
  "\<exists>n k. \<bar>n\<bar> < 2 ^ 53 \<and> - 1074 \<le> k \<and> round_to_grid x = of_int n * 2 powr of_int k"
proof (cases "x = 0")
  case True
  have "\<bar>0::int\<bar> < 2 ^ 53 \<and> - 1074 \<le> (0::int) \<and> round_to_grid x = of_int 0 * 2 powr of_int 0"
    using True by (simp add: round_to_grid_def)
  thus ?thesis by blast
next
  case False
  define e where "e = exponent x"
  define u where "u = ulp x"
  define m where "m = round_half_even (x / u)"
  have upos: "0 < u" by (simp add: u_def ulp_pos)
  have e: "- 1022 \<le> e" by (simp add: e_def exponent_ge)
  have g: "round_to_grid x = of_int m * u"
    using False by (simp add: round_to_grid_def m_def u_def)
  have u2: "2 powr of_int (e + 1) = 2 ^ 53 * u"
  proof -
    have "real_of_int (e + 1) = of_int (e - 52) + 53" by simp
    hence "(2::real) powr of_int (e + 1) = 2 powr (of_int (e - 52) + 53)" by (simp only:)
    also have "\<dots> = 2 powr of_int (e - 52) * 2 powr 53" by (simp only: powr_add)
    finally show ?thesis by (simp add: u_def ulp_def e_def)
  qed
  have "\<bar>x\<bar> < 2 ^ 53 * u"
    using abs_less_exponent [OF False] by (simp only: e_def [symmetric] u2)
  hence "\<bar>x\<bar> / u < 2 ^ 53" using upos by (simp add: field_simps)
  hence ax: "\<bar>x / u\<bar> < 2 ^ 53" using upos by simp
  have "x / u \<le> 2 ^ 53" "- (2 ^ 53) \<le> x / u" using ax by linarith+
  hence qb: "x / u \<le> of_int (2 ^ 53)" "of_int (- (2 ^ 53)) \<le> x / u" by simp_all
  have mb: "m \<le> 2 ^ 53" "- (2 ^ 53) \<le> m"
    unfolding m_def using qb(1) round_half_even_le apply blast
    using qb(2) round_half_even_ge by blast
  have u1: "2 powr of_int (e + 1 - 52) = 2 * u"
  proof -
    have "real_of_int (e + 1 - 52) = of_int (e - 52) + 1" by simp
    hence "(2::real) powr of_int (e + 1 - 52) = 2 powr (of_int (e - 52) + 1)" by (simp only:)
    also have "\<dots> = 2 powr of_int (e - 52) * 2 powr 1" by (simp only: powr_add)
    finally show ?thesis by (simp add: u_def ulp_def e_def)
  qed
  consider "\<bar>m\<bar> < 2 ^ 53" | "m = 2 ^ 53" | "m = - (2 ^ 53)" using mb by linarith
  thus ?thesis
  proof cases
    case 1
    have "\<bar>m\<bar> < 2 ^ 53 \<and> - 1074 \<le> e - 52 \<and> round_to_grid x = of_int m * 2 powr of_int (e - 52)"
      using 1 e g by (simp add: u_def ulp_def e_def)
    thus ?thesis by blast
  next
    case 2
    have "round_to_grid x = 2 ^ 53 * u" by (simp add: g 2)
    also have "\<dots> = 2 ^ 52 * 2 powr of_int (e + 1 - 52)"
      by (simp only: u1) simp
    finally have "\<bar>2 ^ 52 :: int\<bar> < 2 ^ 53 \<and> - 1074 \<le> e + 1 - 52
        \<and> round_to_grid x = of_int (2 ^ 52) * 2 powr of_int (e + 1 - 52)"
      using e by simp
    thus ?thesis by blast
  next
    case 3
    have "round_to_grid x = - (2 ^ 53 * u)" by (simp add: g 3)
    also have "\<dots> = - (2 ^ 52) * 2 powr of_int (e + 1 - 52)"
      by (simp only: u1) simp
    finally have "\<bar>- (2 ^ 52) :: int\<bar> < 2 ^ 53 \<and> - 1074 \<le> e + 1 - 52
        \<and> round_to_grid x = of_int (- (2 ^ 52)) * 2 powr of_int (e + 1 - 52)"
      using e by simp
    thus ?thesis by blast
  qed
qed

lemma round_to_grid_idem: "round_to_grid (round_to_grid x) = round_to_grid x"
proof -
  obtain n k where "\<bar>n\<bar> < 2 ^ 53" "- 1074 \<le> k" "round_to_grid x = of_int n * 2 powr of_int k"
    using round_to_grid_form [of x] by blast
  thus ?thesis using round_to_grid_fixed by blast
qed








lemma round_to_grid_normal:
  assumes "2 powr of_int e \<le> \<bar>x\<bar>" "\<bar>x\<bar> < 2 powr of_int (e + 1)" "- 1022 \<le> e"
  shows "round_to_grid x
    = of_int (round_half_even (x / 2 powr of_int (e - 52))) * 2 powr of_int (e - 52)"
proof -
  have "x \<noteq> 0" using assms(1) by (smt (verit) powr_gt_zero)
  thus ?thesis by (simp add: round_to_grid_def ulp_def exponent_eq [OF assms])
qed


lemma round64_Finite_iff:
  "round64 x = Finite m \<longleftrightarrow> round_to_grid x = m \<and> \<bar>m\<bar> < 2 ^ 1024"
  by (auto simp: round64_def Let_def)

lemma round64_idem:
  assumes "round64 x = Finite m"
  shows "round64 m = Finite m"
proof -
  from assms have m: "round_to_grid x = m" and b: "\<bar>m\<bar> < 2 ^ 1024"
    by (simp_all add: round64_Finite_iff)
  have "round_to_grid m = m" using round_to_grid_idem [of x] by (simp only: m)
  with b show ?thesis by (simp add: round64_Finite_iff)
qed

lemma fadd_zero_round64: "fadd (Finite 0) (round64 v) = round64 v"
proof (cases "round64 v")
  case (Finite m)
  thus ?thesis using round64_idem [OF Finite] by simp
qed simp_all

lemma round64_numeral:
  assumes "(numeral k :: int) \<le> 2 ^ 53"
  shows "round64 (numeral k) = Finite (numeral k)"
  using round64_of_int [of "numeral k"] assms by simp

lemma round64_0: "round64 0 = Finite 0"
  using round64_of_int [of 0] by simp

lemma py_float_PyInt:
  assumes "\<bar>k\<bar> \<le> 2 ^ 53"
  shows "py_float (PyInt k) = Inr (Finite (of_int k))"
  by (simp add: round64_of_int [OF assms])

lemma fadd_of_int:
  assumes "\<bar>a + b\<bar> \<le> 2 ^ 53"
  shows "fadd (Finite (of_int a)) (Finite (of_int b)) = Finite (of_int (a + b))"
  using round64_of_int [OF assms] by simp



lemma fdiv_40_60: "fdiv (Finite 40) (Finite 60) = Finite (6004799503160661 / 2 ^ 53)"
proof -
  have "round_to_grid (40 / 60) = 6004799503160661 / 2 ^ 53"
    by (subst round_to_grid_normal [where e = "- 1"])
       (simp_all add: round_half_even_def powr_neg_numeral)
  thus ?thesis by (simp add: round64_def)
qed

lemma travel_time_40_0: "travel_time_40 0 = Finite 0"
proof -
  have "travel_time_40 0 = fdiv (Finite 0) (Finite (6004799503160661 / 2 ^ 53))"
    by (simp only: travel_time_40_def fdiv_40_60 of_int_0)
  thus ?thesis by (simp add: round64_0)
qed

lemma travel_time_40_1: "travel_time_40 1 = Finite (3 / 2)"
proof -
  have g: "round_to_grid (1 / (6004799503160661 / 2 ^ 53)) = 3 / 2"
    by (subst round_to_grid_normal [where e = 0])
       (simp_all add: round_half_even_def powr_neg_numeral)
  have "travel_time_40 1 = fdiv (Finite 1) (Finite (6004799503160661 / 2 ^ 53))"
    by (simp only: travel_time_40_def fdiv_40_60 of_int_1)
  also have "\<dots> = round64 (1 / (6004799503160661 / 2 ^ 53))"
    by (simp only: fdiv.simps)
  also have "\<dots> = Finite (3 / 2)"
    by (simp only: round64_def g Let_def) simp
  finally show ?thesis .
qed

lemma travel_time_40_2: "travel_time_40 2 = Finite 3"
proof -
  have g: "round_to_grid (2 / (6004799503160661 / 2 ^ 53)) = 3"
    by (subst round_to_grid_normal [where e = 1])
       (simp_all add: round_half_even_def powr_neg_numeral)
  have "travel_time_40 2 = fdiv (Finite 2) (Finite (6004799503160661 / 2 ^ 53))"
    by (simp only: travel_time_40_def fdiv_40_60 of_int_numeral)
  also have "\<dots> = round64 (2 / (6004799503160661 / 2 ^ 53))"
    by (simp only: fdiv.simps)
  also have "\<dots> = Finite 3"
    by (simp only: round64_def g Let_def) simp
  finally show ?thesis .
qed

subsection \<open>Travel time\<close>





lemma calculate_travel_time_unfold:
  "py_truediv speed (Finite 60) = Inr y \<Longrightarrow>
   calculate_travel_time distance speed = py_truediv distance y"
  by (simp only: calculate_travel_time_def sum.case)




lemma round64_power2:
  assumes "n < 1024"
  shows "round64 (2 ^ n) = Finite (2 ^ n)"
proof (rule round64_fixed [where n = 1 and k = "int n"])
  show "(2::real) ^ n = of_int 1 * 2 powr of_int (int n)" by (simp add: powr_realpow)
  show "\<bar>1::int\<bar> < 2 ^ 53" by simp
  show "- 1074 \<le> int n" by simp
  have "(2::real) ^ n < 2 ^ 1024" using assms by (simp only: power_strict_increasing_iff)
  thus "\<bar>(2::real) ^ n\<bar> < 2 ^ 1024" by simp
qed








subsection \<open>Loops and matrices\<close>

lemma for_range_append:
  "for_range body (xs @ ys) s =
     (case for_range body xs s of Inl e \<Rightarrow> Inl e | Inr s' \<Rightarrow> for_range body ys s')"
  by (induction xs arbitrary: s) (auto split: sum.splits)

lemma for_range_Inr_step:
  assumes "for_range body xs s = Inr s'" "i \<in> set xs"
  shows "\<exists>t t'. body i t = Inr t'"
  using assms
proof (induction xs arbitrary: s)
  case Nil
  thus ?case by simp
next
  case (Cons a xs)
  from Cons.prems(1) obtain s1 where a: "body a s = Inr s1" and r: "for_range body xs s1 = Inr s'"
    by (auto split: sum.splits)
  show ?case
  proof (cases "i = a")
    case True
    with a show ?thesis by blast
  next
    case False
    with Cons.prems(2) have "i \<in> set xs" by simp
    with Cons.IH [OF r] show ?thesis by blast
  qed
qed

lemma zeros_tabulate2:
  "N * N \<le> memory \<Longrightarrow> zeros memory N N = Inr (tabulate2 N (\<lambda>r c. Finite 0))"
  by (simp add: zeros_def tabulate2_def map_replicate_trivial)

lemma zeros_Inr_iff: "(\<exists>M. zeros memory r c = Inr M) \<longleftrightarrow> r * c \<le> memory"
  by (simp add: zeros_def)

lemma tabulate2_cong:
  "(\<And>r c. r < N \<Longrightarrow> c < N \<Longrightarrow> g r c = h r c) \<Longrightarrow> tabulate2 N g = tabulate2 N h"
  by (simp add: tabulate2_def)

lemma tabulate2_nth: "r < N \<Longrightarrow> c < N \<Longrightarrow> tabulate2 N g ! r ! c = g r c"
  by (simp add: tabulate2_def)

lemma length_tabulate2: "length (tabulate2 N g) = N"
  by (simp add: tabulate2_def)

lemma length_tabulate2_row: "r < N \<Longrightarrow> length (tabulate2 N g ! r) = N"
  by (simp add: tabulate2_def)

lemma add_at_tabulate2:
  assumes "i < N" "j < N" "py_float v = Inr x"
  shows "add_at (tabulate2 N g) i j v =
         Inr (tabulate2 N (\<lambda>r c. if r = i \<and> c = j then fadd (g r c) x else g r c))"
proof -
  have "(tabulate2 N g)[i := (tabulate2 N g ! i)[j := fadd (tabulate2 N g ! i ! j) x]]
        = tabulate2 N (\<lambda>r c. if r = i \<and> c = j then fadd (g r c) x else g r c)"
    using assms(1,2)
    by (auto simp: tabulate2_def nth_list_update intro!: nth_equalityI)
  with assms show ?thesis
    by (simp add: add_at_def length_tabulate2 length_tabulate2_row)
qed

lemma add_at_Inr_D: "add_at M i j v = Inr M' \<Longrightarrow> \<exists>x. py_float v = Inr x"
  by (auto simp: add_at_def split: if_splits sum.splits)

lemma py_float_100: "py_float (PyInt 100) = Inr (Finite 100)"
  using py_float_PyInt [of 100] by simp

lemma diagonal_tabulate2:
  "n \<le> N \<Longrightarrow> diagonal n (tabulate2 N g) = map (\<lambda>i. g i i) [0..<n]"
  by (simp add: diagonal_def tabulate2_nth)

subsection \<open>Signal cost matrix\<close>

lemma cost_body_tabulate2:
  assumes "k < N" "k < length st" "k < length tf" "k < length ef"
      and "product_as_float (st ! k) (tf ! k) = Inr x"
  shows "cost_body tf st ef k (tabulate2 N g) =
         Inr (tabulate2 N (\<lambda>r c. if r = k \<and> c = k
                then (if ef ! k then fadd (fadd (g r c) x) (Finite 100) else fadd (g r c) x)
                else g r c))"
proof -
  from assms(5) obtain w where w: "py_mul (st ! k) (tf ! k) = Inr w" and x: "py_float w = Inr x"
    by (auto simp: product_as_float_def split: sum.splits)
  show ?thesis
    using assms(1-4)
    by (auto simp: cost_body_def py_get_def w add_at_tabulate2 [OF _ _ x]
          add_at_tabulate2 [OF _ _ py_float_100] Let_def intro!: tabulate2_cong)
qed

lemma cost_body_Inr_D:
  assumes "cost_body tf st ef k M = Inr M'"
  shows "k < length st \<and> k < length tf \<and> k < length ef
         \<and> (\<exists>x. product_as_float (st ! k) (tf ! k) = Inr x)"
  using assms
  by (auto simp: cost_body_def py_get_def product_as_float_def
        split: if_splits sum.splits dest: add_at_Inr_D)

lemma cost_loop_tabulate2:
  assumes "n \<le> N" "n \<le> length st" "n \<le> length tf" "n \<le> length ef"
      and "\<forall>i<n. product_as_float (st ! i) (tf ! i) = Inr (x i)"
  shows "k \<le> n \<Longrightarrow>
         for_range (cost_body tf st ef) [0..<k] (tabulate2 N (\<lambda>r c. Finite 0)) =
         Inr (tabulate2 N (\<lambda>r c. if r = c \<and> r < k
                then cost_cell (x r) (ef ! r) else Finite 0))"
proof (induction k)
  case 0
  then show ?case by simp
next
  case (Suc k)
  then have k: "k < N" "k < length st" "k < length tf" "k < length ef" "k \<le> n"
    using assms by auto
  have xk: "product_as_float (st ! k) (tf ! k) = Inr (x k)"
    using assms(5) Suc.prems by simp
  have "for_range (cost_body tf st ef) [0..<Suc k] (tabulate2 N (\<lambda>r c. Finite 0)) =
        cost_body tf st ef k (tabulate2 N (\<lambda>r c. if r = c \<and> r < k
                then cost_cell (x r) (ef ! r) else Finite 0))"
    by (simp add: for_range_append Suc.IH [OF k(5)] split: sum.splits)
  also have "\<dots> = Inr (tabulate2 N (\<lambda>r c. if r = c \<and> r < Suc k
                then cost_cell (x r) (ef ! r) else Finite 0))"
    unfolding cost_body_tabulate2 [OF k(1-4) xk]
    by (auto intro!: tabulate2_cong simp: less_Suc_eq cost_cell_def)
  finally show ?case .
qed

lemma create_cost_hamiltonian_tabulate2:
  assumes "length tf \<le> length st" "length tf \<le> length ef"
      and "2 ^ length tf * 2 ^ length tf \<le> memory"
      and "\<forall>i<length tf. product_as_float (st ! i) (tf ! i) = Inr (x i)"
  shows "create_cost_hamiltonian memory tf st ef =
         Inr (tabulate2 (2 ^ length tf) (\<lambda>r c. if r = c \<and> r < length tf
                then cost_cell (x r) (ef ! r) else Finite 0))"
proof -
  have n: "length tf \<le> 2 ^ length tf" by (simp add: less_imp_le)
  show ?thesis
    using cost_loop_tabulate2 [OF n assms(1) le_refl assms(2) assms(4) le_refl]
    by (simp add: create_cost_hamiltonian_def zeros_tabulate2 [OF assms(3)] Let_def)
qed

lemma create_cost_hamiltonian_Inr_D:
  assumes "create_cost_hamiltonian memory tf st ef = Inr H"
  shows "2 ^ length tf * 2 ^ length tf \<le> memory
         \<and> (\<forall>i<length tf. \<exists>x. product_as_float (st ! i) (tf ! i) = Inr x)"
proof -
  from assms obtain M where M: "zeros memory (2 ^ length tf) (2 ^ length tf) = Inr M"
    and loop: "for_range (cost_body tf st ef) [0..<length tf] M = Inr H"
    by (auto simp: create_cost_hamiltonian_def Let_def split: sum.splits)
  from M have mem: "2 ^ length tf * 2 ^ length tf \<le> memory"
    using zeros_Inr_iff [of memory "2 ^ length tf" "2 ^ length tf"] by blast
  have "\<exists>x. product_as_float (st ! i) (tf ! i) = Inr x" if "i < length tf" for i
  proof -
    from that have "i \<in> set [0..<length tf]" by simp
    from for_range_Inr_step [OF loop this] obtain t t' where "cost_body tf st ef i t = Inr t'"
      by blast
    thus ?thesis using cost_body_Inr_D by blast
  qed
  with mem show ?thesis by blast
qed

lemma product_as_float_ints:
  assumes "\<bar>a * b\<bar> \<le> 2 ^ 53"
  shows "product_as_float (PyInt a) (PyInt b) = Inr (Finite (of_int (a * b)))"
  by (simp only: product_as_float_def py_mul.simps sum.case py_float_PyInt [OF assms])

lemma cost_cell_int:
  assumes "\<bar>k\<bar> + 100 \<le> 2 ^ 53"
  shows "cost_cell (Finite (of_int k)) flag = Finite (of_int k + (if flag then 100 else 0))"
proof -
  have a: "fadd (Finite 0) (Finite (of_int k)) = Finite (of_int k)"
    using fadd_of_int [of 0 k] assms by simp
  have "fadd (Finite (of_int k)) (Finite (of_int 100)) = Finite (of_int (k + 100))"
    by (rule fadd_of_int) (use assms in linarith)
  hence b: "fadd (Finite (of_int k)) (Finite 100) = Finite (of_int k + 100)" by simp
  show ?thesis by (simp only: cost_cell_def a b) simp
qed

lemma create_cost_hamiltonian_ints:
  assumes "length ts = length fs" "length ef = length fs"
      and "2 ^ length fs * 2 ^ length fs \<le> memory"
      and "\<forall>i<length fs. \<bar>ts ! i * fs ! i\<bar> + 100 \<le> 2 ^ 53"
  shows "create_cost_hamiltonian memory (map PyInt fs) (map PyInt ts) ef =
         Inr (tabulate2 (2 ^ length fs) (\<lambda>r c. if r = c \<and> r < length fs
                then Finite (of_int (ts ! r * fs ! r) + (if ef ! r then 100 else 0))
                else Finite 0))"
proof -
  let ?x = "\<lambda>i. Finite (of_int (ts ! i * fs ! i))"
  have x: "\<forall>i<length (map PyInt fs).
             product_as_float (map PyInt ts ! i) (map PyInt fs ! i) = Inr (?x i)"
  proof (intro allI impI)
    fix i assume "i < length (map PyInt fs)"
    hence i: "i < length fs" by simp
    with assms(4) have "\<bar>ts ! i * fs ! i\<bar> \<le> 2 ^ 53" by force
    thus "product_as_float (map PyInt ts ! i) (map PyInt fs ! i) = Inr (?x i)"
      using i assms(1) by (simp add: product_as_float_ints)
  qed
  have "create_cost_hamiltonian memory (map PyInt fs) (map PyInt ts) ef =
         Inr (tabulate2 (2 ^ length (map PyInt fs)) (\<lambda>r c. if r = c \<and> r < length (map PyInt fs)
                then cost_cell (?x r) (ef ! r) else Finite 0))"
    by (rule create_cost_hamiltonian_tabulate2 [OF _ _ _ x]) (use assms in simp_all)
  also have "tabulate2 (2 ^ length (map PyInt fs)) (\<lambda>r c. if r = c \<and> r < length (map PyInt fs)
                then cost_cell (?x r) (ef ! r) else Finite 0)
      = tabulate2 (2 ^ length fs) (\<lambda>r c. if r = c \<and> r < length fs
                then Finite (of_int (ts ! r * fs ! r) + (if ef ! r then 100 else 0))
                else Finite 0)"
  proof -
    have cell: "cost_cell (?x r) (ef ! r)
                = Finite (of_int (ts ! r * fs ! r) + (if ef ! r then 100 else 0))"
      if "r < length fs" for r
      using assms(4) that by (intro cost_cell_int) blast
    have "(if r = c \<and> r < length fs then cost_cell (?x r) (ef ! r) else Finite 0)
        = (if r = c \<and> r < length fs
           then Finite (of_int (ts ! r * fs ! r) + (if ef ! r then 100 else 0)) else Finite 0)"
      for r c :: nat
    proof (cases "r = c \<and> r < length fs")
      case True
      hence "r < length fs" by simp
      from cell [OF this] True show ?thesis by (simp only: if_True)
    next
      case False
      thus ?thesis by (simp only: if_False)
    qed
    thus ?thesis by (simp only: length_map)
  qed
  finally show ?thesis .
qed

lemma round64_2_pow_54_plus_2: "round64 (of_int (2 * (2 ^ 53 + 1))) = Finite (2 ^ 54)"
proof -
  have "round_to_grid (2 ^ 54 + 2) = 2 ^ 54"
    by (subst round_to_grid_normal [where e = 54]) (simp_all add: round_half_even_def)
  thus ?thesis by (simp add: round64_def)
qed

text \<open>
  Claim C1, as stated: every diagonal entry is the product of timing and flow, plus 100 when
  the flag is set. With the flow \<open>2 ^ 53 + 1\<close>, the timing 2 and the flag set, the product
  \<open>2 ^ 54 + 2\<close> is stored as \<open>2 ^ 54\<close> and the entry is \<open>2 ^ 54 + 100\<close>.
\<close>

theorem create_cost_hamiltonian_rounds_product:
  "map_sum id (diagonal 1) (create_cost_hamiltonian 4 [PyInt (2 ^ 53 + 1)] [PyInt 2] [True])
     = Inr [Finite 18014398509482084]
   \<and> Finite 18014398509482084 \<noteq> Finite (2 * (2 ^ 53 + 1) + 100)"
proof -
  have p: "product_as_float (PyInt 2) (PyInt (2 ^ 53 + 1)) = Inr (Finite (2 ^ 54))"
    by (simp only: product_as_float_def py_mul.simps sum.case py_float.simps(2)
          round64_2_pow_54_plus_2 float64.case)
  have x: "\<forall>i<length [PyInt (2 ^ 53 + 1)].
             product_as_float ([PyInt 2] ! i) ([PyInt (2 ^ 53 + 1)] ! i) = Inr (Finite (2 ^ 54))"
    using p by simp
  have a: "fadd (Finite 0) (Finite (2 ^ 54)) = Finite (2 ^ 54)"
    using round64_power2 [of 54] by simp
  have "round64 (2 ^ 54 + 100) = Finite (2 ^ 54 + 100)"
    by (rule round64_fixed [where n = "2 ^ 52 + 25" and k = 2]) simp_all
  hence b: "fadd (Finite (2 ^ 54)) (Finite 100) = Finite (2 ^ 54 + 100)"
    by (simp only: fadd.simps)
  have v: "(2::real) ^ 54 + 100 = 18014398509482084" by simp
  have c: "cost_cell (Finite (2 ^ 54)) True = Finite 18014398509482084"
    by (simp only: cost_cell_def if_True a b v)
  have "create_cost_hamiltonian 4 [PyInt (2 ^ 53 + 1)] [PyInt 2] [True] =
         Inr (tabulate2 (2 ^ length [PyInt (2 ^ 53 + 1)])
                (\<lambda>r c. if r = c \<and> r < length [PyInt (2 ^ 53 + 1)]
                   then cost_cell (Finite (2 ^ 54)) ([True] ! r) else Finite 0))"
    by (rule create_cost_hamiltonian_tabulate2 [OF _ _ _ x]) simp_all
  hence "map_sum id (diagonal 1) (create_cost_hamiltonian 4 [PyInt (2 ^ 53 + 1)] [PyInt 2] [True])
     = Inr [cost_cell (Finite (2 ^ 54)) True]"
    by (simp add: diagonal_tabulate2)
  thus ?thesis by (simp only: c) simp
qed

text \<open>
  Claim C1, amended. For flow, timing and flag vectors of one length \<open>n\<close>,
  \<open>create_cost_hamiltonian\<close> returns exactly when the \<open>2 ^ n\<close> by \<open>2 ^ n\<close> matrix can be
  allocated and every product \<open>signal_timings[i] * traffic_flows[i]\<close> converts to a float.
  Every matrix it returns has \<open>2 ^ n\<close> rows and columns, and its diagonal entry \<open>[i][i]\<close>, for
  \<open>i < n\<close>, is the binary64 sum of \<open>0.0\<close> and that product, plus 100 in binary64 exactly when
  \<open>emergency_flags[i]\<close> is true. The entry is the exact number
  \<open>signal_timings[i] * traffic_flows[i]\<close>, plus 100 when the flag is true, whenever both
  factors are integers and \<open>\<bar>signal_timings[i] * traffic_flows[i]\<bar> + 100 \<le> 2 ^ 53\<close>.
\<close>

theorem create_cost_hamiltonian_diagonal_binary64:
  assumes "length signal_timings = length traffic_flows"
      and "length emergency_flags = length traffic_flows"
  shows "((\<exists>H. create_cost_hamiltonian memory traffic_flows signal_timings emergency_flags
                = Inr H) \<longleftrightarrow>
            2 ^ length traffic_flows * 2 ^ length traffic_flows \<le> memory
          \<and> (\<forall>i < length traffic_flows.
                \<exists>x. product_as_float (signal_timings ! i) (traffic_flows ! i) = Inr x))
       \<and> (\<forall>H. create_cost_hamiltonian memory traffic_flows signal_timings emergency_flags
                = Inr H \<longrightarrow>
             length H = 2 ^ length traffic_flows
           \<and> (\<forall>r < 2 ^ length traffic_flows. length (H ! r) = 2 ^ length traffic_flows)
           \<and> (\<forall>i < length traffic_flows.
                 \<exists>x. product_as_float (signal_timings ! i) (traffic_flows ! i) = Inr x
                   \<and> H ! i ! i = cost_cell x (emergency_flags ! i))
           \<and> (\<forall>i < length traffic_flows. \<forall>a b.
                 signal_timings ! i = PyInt a \<and> traffic_flows ! i = PyInt b
                 \<and> \<bar>a * b\<bar> + 100 \<le> 2 ^ 53 \<longrightarrow>
                 H ! i ! i = Finite (of_int (a * b) + (if emergency_flags ! i then 100 else 0))))"
proof -
  let ?n = "length traffic_flows"
  let ?res = "create_cost_hamiltonian memory traffic_flows signal_timings emergency_flags"
  let ?ok = "2 ^ ?n * 2 ^ ?n \<le> memory
             \<and> (\<forall>i < ?n. \<exists>x. product_as_float (signal_timings ! i) (traffic_flows ! i) = Inr x)"
  define x where "x = (\<lambda>i. projr (product_as_float (signal_timings ! i) (traffic_flows ! i)))"
  let ?T = "tabulate2 (2 ^ ?n) (\<lambda>r c. if r = c \<and> r < ?n
               then cost_cell (x r) (emergency_flags ! r) else Finite 0)"
  have run: "?res = Inr ?T" if ok: ?ok
  proof -
    have "\<forall>i < ?n. product_as_float (signal_timings ! i) (traffic_flows ! i) = Inr (x i)"
      using ok by (auto simp: x_def)
    thus ?thesis
      using assms ok by (intro create_cost_hamiltonian_tabulate2) simp_all
  qed
  have ret: "(\<exists>H. ?res = Inr H) \<longleftrightarrow> ?ok"
    using run create_cost_hamiltonian_Inr_D [of memory traffic_flows signal_timings emergency_flags]
    by blast
  have props: "length H = 2 ^ ?n
           \<and> (\<forall>r < 2 ^ ?n. length (H ! r) = 2 ^ ?n)
           \<and> (\<forall>i < ?n. \<exists>x. product_as_float (signal_timings ! i) (traffic_flows ! i) = Inr x
                   \<and> H ! i ! i = cost_cell x (emergency_flags ! i))
           \<and> (\<forall>i < ?n. \<forall>a b.
                 signal_timings ! i = PyInt a \<and> traffic_flows ! i = PyInt b
                 \<and> \<bar>a * b\<bar> + 100 \<le> 2 ^ 53 \<longrightarrow>
                 H ! i ! i = Finite (of_int (a * b) + (if emergency_flags ! i then 100 else 0)))"
    if "?res = Inr H" for H
  proof -
    from that ret have ok: ?ok by blast
    from that run [OF ok] have H: "H = ?T" by simp
    have xi: "product_as_float (signal_timings ! i) (traffic_flows ! i) = Inr (x i)"
      if "i < ?n" for i using ok that by (auto simp: x_def)
    have entry: "?T ! i ! i = cost_cell (x i) (emergency_flags ! i)" if "i < ?n" for i
    proof -
      from that have "i < 2 ^ ?n" using less_exp [of ?n] by linarith
      thus ?thesis using that by (simp add: tabulate2_nth)
    qed
    have exact: "?T ! i ! i = Finite (of_int (a * b) + (if emergency_flags ! i then 100 else 0))"
      if i: "i < ?n" and a: "signal_timings ! i = PyInt a" and b: "traffic_flows ! i = PyInt b"
        and small: "\<bar>a * b\<bar> + 100 \<le> 2 ^ 53" for i a b
    proof -
      from small have "\<bar>a * b\<bar> \<le> 2 ^ 53" by linarith
      hence "product_as_float (PyInt a) (PyInt b) = Inr (Finite (of_int (a * b)))"
        by (rule product_as_float_ints)
      with xi [OF i] have "x i = Finite (of_int (a * b))" by (simp add: a b)
      thus ?thesis by (simp only: entry [OF i] cost_cell_int [OF small])
    qed
    show ?thesis
      unfolding H using xi entry exact
      by (auto simp: length_tabulate2 length_tabulate2_row)
  qed
  from ret props show ?thesis by blast
qed

theorem create_cost_hamiltonian_diagonal_binary64_witness:
  "length [PyInt 10, PyInt 45] = length [PyInt 7, PyInt 2]
   \<and> length [True, False] = length [PyInt 7, PyInt 2]
   \<and> map_sum id (diagonal 2)
         (create_cost_hamiltonian 16 [PyInt 7, PyInt 2] [PyInt 10, PyInt 45] [True, False])
       = Inr [Finite 170, Finite 90]"
proof -
  have l1: "length [PyInt 10, PyInt 45] = length [PyInt 7, PyInt 2]" by simp
  have l2: "length [True, False] = length [PyInt 7, PyInt 2]" by simp
  note inst = create_cost_hamiltonian_diagonal_binary64 [OF l1 l2, of 16]
  have p0: "product_as_float (PyInt 10) (PyInt 7) = Inr (Finite 70)"
    using product_as_float_ints [of 10 7] by simp
  have p1: "product_as_float (PyInt 45) (PyInt 2) = Inr (Finite 90)"
    using product_as_float_ints [of 45 2] by simp
  have ok: "2 ^ length [PyInt 7, PyInt 2] * 2 ^ length [PyInt 7, PyInt 2] \<le> (16::nat)
          \<and> (\<forall>i < length [PyInt 7, PyInt 2].
                \<exists>x. product_as_float ([PyInt 10, PyInt 45] ! i) ([PyInt 7, PyInt 2] ! i) = Inr x)"
    using p0 p1 by (simp add: less_Suc_eq)
  from inst ok obtain H
    where H: "create_cost_hamiltonian 16 [PyInt 7, PyInt 2] [PyInt 10, PyInt 45] [True, False]
              = Inr H"
    by blast
  from inst H have exact: "\<forall>i < length [PyInt 7, PyInt 2]. \<forall>a b.
        [PyInt 10, PyInt 45] ! i = PyInt a \<and> [PyInt 7, PyInt 2] ! i = PyInt b
        \<and> \<bar>a * b\<bar> + 100 \<le> 2 ^ 53 \<longrightarrow>
        H ! i ! i = Finite (of_int (a * b) + (if [True, False] ! i then 100 else 0))"
    by blast
  from exact [rule_format, of 0 10 7] have d0: "H ! 0 ! 0 = Finite 170" by simp
  from exact [rule_format, of 1 45 2] have d1: "H ! 1 ! 1 = Finite 90" by simp
  have "diagonal 2 H = [H ! 0 ! 0, H ! 1 ! 1]"
    by (simp add: diagonal_def upt_rec)
  with d0 d1 H l1 l2 show ?thesis by simp
qed

lemma sample_cost_hamiltonian:
  "create_cost_hamiltonian 64 [PyInt 50, PyInt 40, PyInt 10] [PyInt 30, PyInt 60, PyInt 20]
     [False, True, False]
   = Inr (tabulate2 8 (\<lambda>r c. if r = c \<and> r < 3
            then Finite (of_int ([30, 60, 20] ! r * [50, 40, 10] ! r)
                         + (if [False, True, False] ! r then 100 else 0))
            else Finite 0))"
proof -
  have small: "\<forall>i<length [50, 40, 10 :: int].
                 \<bar>[30, 60, 20] ! i * [50, 40, 10] ! i\<bar> + 100 \<le> (2 ^ 53 :: int)"
    by (simp add: less_Suc_eq)
  have "create_cost_hamiltonian 64 (map PyInt [50, 40, 10]) (map PyInt [30, 60, 20])
          [False, True, False]
        = Inr (tabulate2 (2 ^ length [50, 40, 10 :: int])
            (\<lambda>r c. if r = c \<and> r < length [50, 40, 10 :: int]
               then Finite (of_int ([30, 60, 20] ! r * [50, 40, 10] ! r)
                            + (if [False, True, False] ! r then 100 else 0))
               else Finite 0))"
    by (rule create_cost_hamiltonian_ints [OF _ _ _ small]) simp_all
  thus ?thesis by (simp add: numeral_3_eq_3)
qed

text \<open>
  Claim C5, as stated: for the sample vectors of the script the diagonal would be
  \<open>[1500, 2500 + 100, 200]\<close>. The second intersection has timing 60 and flow 40, so its
  waiting time is 2400 and the entry with the penalty is 2500, not 2600. The matrix of the
  three intersections has 64 cells.
\<close>

theorem sample_cost_diagonal_is_not_2600:
  "map_sum id (diagonal 3)
     (create_cost_hamiltonian 64 [PyInt 50, PyInt 40, PyInt 10] [PyInt 30, PyInt 60, PyInt 20]
        [False, True, False])
   \<noteq> Inr [Finite 1500, Finite (2500 + 100), Finite 200]"
  by (simp add: sample_cost_hamiltonian diagonal_tabulate2 upt_rec)

text \<open>
  Claim C5, amended: for the sample vectors \<open>traffic_flows = [50, 40, 10]\<close>,
  \<open>signal_timings = [30, 60, 20]\<close>, \<open>emergency_flags = [False, True, False]\<close>, the diagonal
  entries of the three intersections are \<open>[1500, 2400 + 100, 200]\<close>.
\<close>

theorem sample_cost_diagonal:
  "map_sum id (diagonal 3)
     (create_cost_hamiltonian 64 [PyInt 50, PyInt 40, PyInt 10] [PyInt 30, PyInt 60, PyInt 20]
        [False, True, False])
   = Inr [Finite 1500, Finite (2400 + 100), Finite 200]"
  by (simp add: sample_cost_hamiltonian diagonal_tabulate2 upt_rec)

subsection \<open>Path cost matrix: unused arguments\<close>

text \<open>
  Claim C9. The matrix built by \<open>create_path_cost_hamiltonian\<close> does not depend on its
  \<open>end\<close> and \<open>emergency_flags\<close> arguments: two calls that agree on \<open>start\<close>,
  \<open>traffic_flows\<close> and \<open>signal_timings\<close> give the same result, be it a matrix or an
  exception.
\<close>

theorem create_path_cost_hamiltonian_ignores_end_and_flags:
  "create_path_cost_hamiltonian memory start end1 traffic_flows signal_timings flags1 =
   create_path_cost_hamiltonian memory start end2 traffic_flows signal_timings flags2"
  by (simp add: create_path_cost_hamiltonian_def)

subsection \<open>Path cost matrix\<close>

lemma reads_ok_0: "reads_ok i 0 start"
  by (simp add: reads_ok_def)

lemma reads_ok_Suc:
  "reads_ok i (Suc k) start \<longleftrightarrow>
     reads_ok i k start \<and> (int k \<noteq> start \<longrightarrow> i < length distances \<and> k < length (distances ! i))"
  by (auto simp: reads_ok_def less_Suc_eq)

lemma distances_rows: "i < length distances \<Longrightarrow> length (distances ! i) = length distances"
  by (auto simp: distances_def nth_Cons')

lemma distances_values:
  assumes "i < length distances" "j < length (distances ! i)"
  shows "distances ! i ! j = 0 \<or> distances ! i ! j = 1 \<or> distances ! i ! j = 2"
proof -
  from assms have "i < 3" "j < 3" by (simp_all add: distances_rows) (simp_all add: distances_def)
  hence "i \<in> {0, 1, 2}" "j \<in> {0, 1, 2}" by auto
  thus ?thesis by (auto simp: distances_def)
qed

lemma py_truediv_40_60:
  "py_truediv (PyInt 40) (Finite 60) = Inr (fdiv (Finite 40) (Finite 60))"
proof -
  have "py_float (PyInt 40) = Inr (Finite 40)" using py_float_PyInt [of 40] by simp
  thus ?thesis by (simp only: py_truediv_def sum.case) simp
qed

lemma calculate_travel_time_vehicle_speed:
  assumes "\<bar>d\<bar> \<le> 2 ^ 53"
  shows "calculate_travel_time (PyInt d) vehicle_speed = Inr (travel_time_40 d)"
proof -
  have nz: "fdiv (Finite 40) (Finite 60) \<noteq> Finite 0" by (simp only: fdiv_40_60) simp
  have "calculate_travel_time (PyInt d) vehicle_speed
        = py_truediv (PyInt d) (fdiv (Finite 40) (Finite 60))"
    unfolding vehicle_speed_def by (rule calculate_travel_time_unfold [OF py_truediv_40_60])
  also have "\<dots> = Inr (fdiv (Finite (of_int d)) (fdiv (Finite 40) (Finite 60)))"
    using nz by (simp only: py_truediv_def py_float_PyInt [OF assms] sum.case if_False)
  finally show ?thesis by (simp only: travel_time_40_def)
qed

lemma travel_time_40_table:
  assumes "i < length distances" "j < length (distances ! i)"
  shows "travel_time_40 (distances ! i ! j) = Finite (of_int (distances ! i ! j) * 3 / 2)"
  using distances_values [OF assms]
  by (auto simp: travel_time_40_0 travel_time_40_1 travel_time_40_2)

lemma fadd_zero_travel_time_40: "fadd (Finite 0) (travel_time_40 d) = travel_time_40 d"
proof -
  have "travel_time_40 d = round64 (of_int d / (6004799503160661 / 2 ^ 53))"
    by (simp only: travel_time_40_def fdiv_40_60) (simp only: fdiv.simps)
  thus ?thesis by (simp only: fadd_zero_round64)
qed

lemma travel_body_tabulate2:
  assumes "i < N" "j < N"
  shows "travel_body start i j (tabulate2 N g) =
         (if int j \<noteq> start \<longrightarrow> i < length distances \<and> j < length (distances ! i)
          then Inr (tabulate2 N (\<lambda>r c. if r = i \<and> c = j \<and> int j \<noteq> start
                 then fadd (g r c) (travel_time_40 (distances ! i ! j)) else g r c))
          else Inl IndexError)"
proof (cases "int j \<noteq> start")
  case False
  thus ?thesis by (auto simp: travel_body_def intro!: arg_cong [where f = Inr] tabulate2_cong)
next
  case True
  show ?thesis
  proof (cases "i < length distances \<and> j < length (distances ! i)")
    case False
    thus ?thesis using True by (auto simp: travel_body_def py_get_def)
  next
    case rd: True
    hence "distances ! i ! j = 0 \<or> distances ! i ! j = 1 \<or> distances ! i ! j = 2"
      using distances_values by blast
    hence "\<bar>distances ! i ! j\<bar> \<le> 2 ^ 53" by auto
    hence tt: "calculate_travel_time (PyInt (distances ! i ! j)) vehicle_speed
               = Inr (travel_time_40 (distances ! i ! j))"
      by (rule calculate_travel_time_vehicle_speed)
    have pf: "py_float (PyFloat (travel_time_40 (distances ! i ! j)))
              = Inr (travel_time_40 (distances ! i ! j))" by simp
    have "travel_body start i j (tabulate2 N g)
          = add_at (tabulate2 N g) i j (PyFloat (travel_time_40 (distances ! i ! j)))"
      using True rd by (simp add: travel_body_def py_get_def tt)
    also have "\<dots> = Inr (tabulate2 N (\<lambda>r c. if r = i \<and> c = j
                 then fadd (g r c) (travel_time_40 (distances ! i ! j)) else g r c))"
      by (rule add_at_tabulate2 [OF assms pf])
    finally show ?thesis using True rd by simp
  qed
qed

lemma travel_loop_tabulate2:
  assumes "i < N" "n \<le> N"
  shows "k \<le> n \<Longrightarrow>
         for_range (travel_body start i) [0..<k] (tabulate2 N g) =
         (if reads_ok i k start
          then Inr (tabulate2 N (\<lambda>r c. if r = i \<and> c < k \<and> int c \<noteq> start
                 then fadd (g r c) (travel_time_40 (distances ! i ! c)) else g r c))
          else Inl IndexError)"
proof (induction k)
  case 0
  then show ?case by (simp add: reads_ok_0)
next
  case (Suc k)
  then have k: "k < N" "k \<le> n"
    using assms by auto
  let ?M = "tabulate2 N (\<lambda>r c. if r = i \<and> c < k \<and> int c \<noteq> start
                 then fadd (g r c) (travel_time_40 (distances ! i ! c)) else g r c)"
  have split: "for_range (travel_body start i) [0..<Suc k] (tabulate2 N g) =
        (if reads_ok i k start then travel_body start i k ?M else Inl IndexError)"
    by (simp add: for_range_append Suc.IH [OF k(2)] split: sum.splits)
  show ?case
  proof (cases "reads_ok i (Suc k) start")
    case True
    then have ok: "reads_ok i k start"
      and rd: "int k \<noteq> start \<longrightarrow> i < length distances \<and> k < length (distances ! i)"
      by (simp_all add: reads_ok_Suc)
    have "travel_body start i k ?M =
          Inr (tabulate2 N (\<lambda>r c. if r = i \<and> c < Suc k \<and> int c \<noteq> start
                 then fadd (g r c) (travel_time_40 (distances ! i ! c)) else g r c))"
      unfolding travel_body_tabulate2 [OF assms(1) k(1)] using rd
      by (cases "int k = start") (auto intro!: tabulate2_cong simp: less_Suc_eq)
    with split ok True show ?thesis by simp
  next
    case False
    then have "\<not> reads_ok i k start \<or>
               \<not> (int k \<noteq> start \<longrightarrow> i < length distances \<and> k < length (distances ! i))"
      by (simp add: reads_ok_Suc)
    then have "(if reads_ok i k start then travel_body start i k ?M else Inl IndexError)
               = Inl IndexError"
      unfolding travel_body_tabulate2 [OF assms(1) k(1)] by auto
    with split False show ?thesis by simp
  qed
qed

lemma path_cost_body_other:
  "int i \<noteq> start \<Longrightarrow> path_cost_body start tf st n i M = Inr M"
  by (simp add: path_cost_body_def)

lemma path_cost_body_start:
  assumes "i < N" "n \<le> N" "i < length tf" "int i = start" "i < length st"
      and "product_as_float (st ! i) (tf ! i) = Inr x"
  shows "path_cost_body start tf st n i (tabulate2 N (\<lambda>r c. Finite 0)) =
         (if reads_ok i n start
          then Inr (tabulate2 N (\<lambda>r c. if r = i then start_row x n i c else Finite 0))
          else Inl IndexError)"
proof -
  from assms(6) obtain w where w: "py_mul (st ! i) (tf ! i) = Inr w" and x: "py_float w = Inr x"
    by (auto simp: product_as_float_def split: sum.splits)
  let ?M1 = "tabulate2 N (\<lambda>r c. if r = i \<and> c = i then fadd (Finite 0) x else Finite 0)"
  have "path_cost_body start tf st n i (tabulate2 N (\<lambda>r c. Finite 0)) =
        for_range (travel_body start i) [0..<n] ?M1"
    using assms(1-5)
    by (simp add: path_cost_body_def py_get_def w add_at_tabulate2 [OF _ _ x])
  also have "\<dots> = (if reads_ok i n start
          then Inr (tabulate2 N (\<lambda>r c. if r = i then start_row x n i c else Finite 0))
          else Inl IndexError)"
    unfolding travel_loop_tabulate2 [OF assms(1,2) le_refl]
    using assms(4) by (auto intro!: tabulate2_cong simp: start_row_def)
  finally show ?thesis .
qed

lemma path_cost_body_Inr_D:
  assumes "path_cost_body start tf st n i M = Inr M'" "int i = start"
      and "i < length st" "i < length tf"
  shows "\<exists>x. product_as_float (st ! i) (tf ! i) = Inr x"
  using assms
  by (auto simp: path_cost_body_def py_get_def product_as_float_def
        split: if_splits sum.splits dest: add_at_Inr_D)

lemma path_loop_tabulate2:
  assumes "n \<le> N" "n \<le> length tf" "0 \<le> start" "nat start < length st"
      and "product_as_float (st ! nat start) (tf ! nat start) = Inr x"
  shows "k \<le> n \<Longrightarrow>
         for_range (path_cost_body start tf st n) [0..<k] (tabulate2 N (\<lambda>r c. Finite 0)) =
         (if start < int k
          then (if reads_ok (nat start) n start
                then Inr (tabulate2 N
                       (\<lambda>r c. if r = nat start then start_row x n (nat start) c else Finite 0))
                else Inl IndexError)
          else Inr (tabulate2 N (\<lambda>r c. Finite 0)))"
proof (induction k)
  case 0
  have "\<not> start < int 0" using assms(3) by simp
  then show ?case by (simp only: if_False for_range.simps upt_0)
next
  case (Suc k)
  then have k: "k < N" "k < length tf" "k \<le> n" using assms by auto
  let ?body = "path_cost_body start tf st n"
  let ?Z = "tabulate2 N (\<lambda>r c. Finite 0) :: matrix"
  let ?T = "tabulate2 N (\<lambda>r c. if r = nat start then start_row x n (nat start) c else Finite 0)"
  have split: "for_range ?body [0..<Suc k] ?Z =
        (case for_range ?body [0..<k] ?Z of Inl e \<Rightarrow> Inl e | Inr M \<Rightarrow> ?body k M)"
    by (simp add: for_range_append split: sum.splits)
  consider (before) "start < int k" | (now) "start = int k" | (later) "int k < start"
    by linarith
  then show ?case
  proof cases
    case before
    then have ne: "int k \<noteq> start" by simp
    have IH1: "for_range ?body [0..<k] ?Z =
        (if reads_ok (nat start) n start then Inr ?T else Inl IndexError)"
      using Suc.IH [OF k(3)] before by (simp only: if_True)
    have c: "start < int (Suc k)" using before by simp
    show ?thesis
    proof (cases "reads_ok (nat start) n start")
      case True
      have "for_range ?body [0..<Suc k] ?Z = ?body k ?T"
        by (simp only: split IH1 True if_True sum.case)
      also have "\<dots> = Inr ?T" using ne by (rule path_cost_body_other)
      finally show ?thesis by (simp only: c True if_True)
    next
      case False
      have "for_range ?body [0..<Suc k] ?Z = Inl IndexError"
        by (simp only: split IH1 False if_False sum.case)
      thus ?thesis by (simp only: c False if_True if_False)
    qed
  next
    case now
    have nk: "\<not> start < int k" using now by simp
    have IH0: "for_range ?body [0..<k] ?Z = Inr ?Z"
      using Suc.IH [OF k(3)] nk by (simp only: if_False)
    have ns: "nat start = k" using now by simp
    have kst: "k < length st" using assms(4) by (simp only: ns)
    have xk: "product_as_float (st ! k) (tf ! k) = Inr x" using assms(5) by (simp only: ns)
    have body: "?body k ?Z =
         (if reads_ok k n start
          then Inr (tabulate2 N (\<lambda>r c. if r = k then start_row x n k c else Finite 0))
          else Inl IndexError)"
      using path_cost_body_start [OF k(1) assms(1) k(2) now [symmetric] kst xk] .
    have c: "start < int (Suc k)" using now by simp
    have "for_range ?body [0..<Suc k] ?Z = ?body k ?Z"
      by (simp only: split IH0 sum.case)
    thus ?thesis by (simp only: body c if_True ns)
  next
    case later
    then have ne: "int k \<noteq> start" by simp
    have nk: "\<not> start < int k" using later by simp
    have IH0: "for_range ?body [0..<k] ?Z = Inr ?Z"
      using Suc.IH [OF k(3)] nk by (simp only: if_False)
    have c: "\<not> start < int (Suc k)" using later by simp
    have "for_range ?body [0..<Suc k] ?Z = ?body k ?Z"
      by (simp only: split IH0 sum.case)
    also have "\<dots> = Inr ?Z" using ne by (rule path_cost_body_other)
    finally show ?thesis by (simp only: c if_False)
  qed
qed

lemma create_path_cost_hamiltonian_tabulate2:
  assumes "0 \<le> start" "start < int (length tf)" "nat start < length st"
      and "2 ^ length tf * 2 ^ length tf \<le> memory"
      and "product_as_float (st ! nat start) (tf ! nat start) = Inr x"
  shows "create_path_cost_hamiltonian memory start e tf st ef =
     (if reads_ok (nat start) (length tf) start
      then Inr (tabulate2 (2 ^ length tf)
             (\<lambda>r c. if r = nat start then start_row x (length tf) (nat start) c else Finite 0))
      else Inl IndexError)"
proof -
  have n: "length tf \<le> 2 ^ length tf" by (simp add: less_imp_le)
  show ?thesis
    using path_loop_tabulate2 [OF n le_refl assms(1,3,5) le_refl] assms(2)
    by (simp add: create_path_cost_hamiltonian_def zeros_tabulate2 [OF assms(4)] Let_def)
qed

lemma create_path_cost_hamiltonian_Inr_D:
  assumes "create_path_cost_hamiltonian memory start e tf st ef = Inr H"
      and "0 \<le> start" "start < int (length tf)" "nat start < length st"
  shows "2 ^ length tf * 2 ^ length tf \<le> memory
         \<and> (\<exists>x. product_as_float (st ! nat start) (tf ! nat start) = Inr x)"
proof -
  let ?n = "length tf"
  from assms(1) obtain M where M: "zeros memory (2 ^ ?n) (2 ^ ?n) = Inr M"
    and loop: "for_range (path_cost_body start tf st ?n) [0..<?n] M = Inr H"
    by (auto simp: create_path_cost_hamiltonian_def Let_def split: sum.splits)
  from M have mem: "2 ^ ?n * 2 ^ ?n \<le> memory"
    using zeros_Inr_iff [of memory "2 ^ ?n" "2 ^ ?n"] by blast
  have s: "nat start < ?n" using assms(2,3) by simp
  hence "nat start \<in> set [0..<?n]" by simp
  from for_range_Inr_step [OF loop this] obtain t t'
    where "path_cost_body start tf st ?n (nat start) t = Inr t'" by blast
  moreover have "int (nat start) = start" using assms(2) by simp
  ultimately have "\<exists>x. product_as_float (st ! nat start) (tf ! nat start) = Inr x"
    using assms(4) s by (intro path_cost_body_Inr_D)
  with mem show ?thesis by blast
qed

lemma reads_ok_distances:
  "s < n \<Longrightarrow> n \<le> length distances \<Longrightarrow> reads_ok s n start"
  by (simp add: reads_ok_def distances_rows)

text \<open>
  Claim C4, as stated: entry \<open>[start][start]\<close> is
  \<open>signal_timings[start] * traffic_flows[start]\<close>. With one intersection, the flow
  \<open>2 ^ 53 + 1\<close> and the timing 2, the product \<open>2 ^ 54 + 2\<close> is stored as \<open>2 ^ 54\<close> in the
  one diagonal cell of the start node.
\<close>

theorem create_path_cost_hamiltonian_rounds_product:
  "map_sum id (diagonal 1)
     (create_path_cost_hamiltonian 4 0 0 [PyInt (2 ^ 53 + 1)] [PyInt 2] [False])
     = Inr [Finite (2 ^ 54)]
   \<and> Finite (2 ^ 54) \<noteq> Finite (2 * (2 ^ 53 + 1))"
proof -
  have p: "product_as_float (PyInt 2) (PyInt (2 ^ 53 + 1)) = Inr (Finite (2 ^ 54))"
    by (simp only: product_as_float_def py_mul.simps sum.case py_float.simps(2)
          round64_2_pow_54_plus_2 float64.case)
  have x: "product_as_float ([PyInt 2] ! nat 0) ([PyInt (2 ^ 53 + 1)] ! nat 0)
           = Inr (Finite (2 ^ 54))"
    using p by simp
  have a: "fadd (Finite 0) (Finite (2 ^ 54)) = Finite (2 ^ 54)"
    using round64_power2 [of 54] by simp
  have ok: "reads_ok (nat 0) (length [PyInt (2 ^ 53 + 1)]) 0"
    by (simp add: reads_ok_def)
  have "create_path_cost_hamiltonian 4 0 0 [PyInt (2 ^ 53 + 1)] [PyInt 2] [False] =
     (if reads_ok (nat 0) (length [PyInt (2 ^ 53 + 1)]) 0
      then Inr (tabulate2 (2 ^ length [PyInt (2 ^ 53 + 1)])
             (\<lambda>r c. if r = nat 0
                then start_row (Finite (2 ^ 54)) (length [PyInt (2 ^ 53 + 1)]) (nat 0) c
                else Finite 0))
      else Inl IndexError)"
    by (rule create_path_cost_hamiltonian_tabulate2 [OF _ _ _ _ x]) simp_all
  hence "map_sum id (diagonal 1)
     (create_path_cost_hamiltonian 4 0 0 [PyInt (2 ^ 53 + 1)] [PyInt 2] [False])
     = Inr [fadd (Finite 0) (Finite (2 ^ 54))]"
    by (simp only: ok if_True) (simp add: diagonal_tabulate2 start_row_def del: fadd.simps)
  thus ?thesis by (simp only: a) simp
qed

text \<open>
  Claim C4, amended. For a start node \<open>0 \<le> start < n\<close> and vectors of length \<open>n\<close>,
  \<open>create_path_cost_hamiltonian\<close> returns whenever \<open>n\<close> does not exceed the size of the
  distance table, the \<open>2 ^ n\<close> by \<open>2 ^ n\<close> matrix can be allocated and the product
  \<open>signal_timings[start] * traffic_flows[start]\<close> converts to a float. Every matrix it
  returns has \<open>2 ^ n\<close> rows and columns and is zero outside row \<open>start\<close>; entry
  \<open>[start][start]\<close> is the binary64 sum of \<open>0.0\<close> and that product, which is the exact
  product when both factors are integers and the product is at most \<open>2 ^ 53\<close> in magnitude;
  entry \<open>[start][j]\<close> for a node \<open>j \<noteq> start\<close> is the binary64 quotient
  \<open>distances[start][j] / (40 / 60)\<close>, which is \<open>1.5 * distances[start][j]\<close>; the columns
  from \<open>n\<close> on stay zero.
\<close>

theorem create_path_cost_hamiltonian_start_row_binary64:
  assumes "0 \<le> start" and "start < int (length traffic_flows)"
      and "length signal_timings = length traffic_flows"
  shows "(length traffic_flows \<le> length distances
          \<and> 2 ^ length traffic_flows * 2 ^ length traffic_flows \<le> memory
          \<and> (\<exists>x. product_as_float (signal_timings ! nat start) (traffic_flows ! nat start)
                  = Inr x) \<longrightarrow>
           (\<exists>H. create_path_cost_hamiltonian memory start end_node traffic_flows
                  signal_timings emergency_flags = Inr H))
       \<and> (\<forall>H. create_path_cost_hamiltonian memory start end_node traffic_flows signal_timings
                  emergency_flags = Inr H \<longrightarrow>
             length H = 2 ^ length traffic_flows
           \<and> (\<forall>r < 2 ^ length traffic_flows. length (H ! r) = 2 ^ length traffic_flows)
           \<and> (\<forall>r < 2 ^ length traffic_flows. \<forall>c < 2 ^ length traffic_flows.
                 r \<noteq> nat start \<longrightarrow> H ! r ! c = Finite 0)
           \<and> (\<exists>x. product_as_float (signal_timings ! nat start) (traffic_flows ! nat start)
                    = Inr x
                  \<and> H ! nat start ! nat start = fadd (Finite 0) x)
           \<and> (\<forall>a b. signal_timings ! nat start = PyInt a \<and> traffic_flows ! nat start = PyInt b
                 \<and> \<bar>a * b\<bar> \<le> 2 ^ 53 \<longrightarrow>
                 H ! nat start ! nat start = Finite (of_int (a * b)))
           \<and> (\<forall>j < length traffic_flows. j \<noteq> nat start \<longrightarrow>
                 H ! nat start ! j
                   = fdiv (Finite (of_int (distances ! nat start ! j)))
                          (fdiv (Finite 40) (Finite 60))
                 \<and> H ! nat start ! j = Finite (of_int (distances ! nat start ! j) * 3 / 2))
           \<and> (\<forall>j < 2 ^ length traffic_flows. length traffic_flows \<le> j \<longrightarrow>
                 H ! nat start ! j = Finite 0))"
proof -
  let ?n = "length traffic_flows"
  let ?s = "nat start"
  let ?res = "create_path_cost_hamiltonian memory start end_node traffic_flows signal_timings
                emergency_flags"
  let ?T = "\<lambda>x. tabulate2 (2 ^ ?n) (\<lambda>r c. if r = ?s then start_row x ?n ?s c else Finite 0)"
  from assms have s: "?s < ?n" "?s < length signal_timings" by auto
  have sN: "?s < 2 ^ ?n" using s(1) less_exp [of ?n] by linarith
  have res: "?res = (if reads_ok ?s ?n start then Inr (?T x) else Inl IndexError)"
    if "2 ^ ?n * 2 ^ ?n \<le> memory"
      and "product_as_float (signal_timings ! ?s) (traffic_flows ! ?s) = Inr x" for x
    using assms(1,2) s(2) that by (rule create_path_cost_hamiltonian_tabulate2)
  have total: "?n \<le> length distances \<and> 2 ^ ?n * 2 ^ ?n \<le> memory
          \<and> (\<exists>x. product_as_float (signal_timings ! ?s) (traffic_flows ! ?s) = Inr x) \<longrightarrow>
           (\<exists>H. ?res = Inr H)"
    using res reads_ok_distances [OF s(1)] by auto
  have props: "length H = 2 ^ ?n
           \<and> (\<forall>r < 2 ^ ?n. length (H ! r) = 2 ^ ?n)
           \<and> (\<forall>r < 2 ^ ?n. \<forall>c < 2 ^ ?n. r \<noteq> ?s \<longrightarrow> H ! r ! c = Finite 0)
           \<and> (\<exists>x. product_as_float (signal_timings ! ?s) (traffic_flows ! ?s) = Inr x
                  \<and> H ! ?s ! ?s = fadd (Finite 0) x)
           \<and> (\<forall>a b. signal_timings ! ?s = PyInt a \<and> traffic_flows ! ?s = PyInt b
                 \<and> \<bar>a * b\<bar> \<le> 2 ^ 53 \<longrightarrow> H ! ?s ! ?s = Finite (of_int (a * b)))
           \<and> (\<forall>j < ?n. j \<noteq> ?s \<longrightarrow>
                 H ! ?s ! j = fdiv (Finite (of_int (distances ! ?s ! j)))
                                (fdiv (Finite 40) (Finite 60))
                 \<and> H ! ?s ! j = Finite (of_int (distances ! ?s ! j) * 3 / 2))
           \<and> (\<forall>j < 2 ^ ?n. ?n \<le> j \<longrightarrow> H ! ?s ! j = Finite 0)" if ret: "?res = Inr H" for H
  proof -
    from create_path_cost_hamiltonian_Inr_D [OF ret assms(1,2) s(2)]
    obtain x where mem: "2 ^ ?n * 2 ^ ?n \<le> memory"
      and x: "product_as_float (signal_timings ! ?s) (traffic_flows ! ?s) = Inr x"
      by blast
    from ret res [OF mem x] have rd: "reads_ok ?s ?n start" and H: "H = ?T x"
      by (simp_all split: if_splits)
    have jN: "j < 2 ^ ?n" if "j < ?n" for j
      using that less_exp [of ?n] by linarith
    have len: "length H = 2 ^ ?n" unfolding H by (rule length_tabulate2)
    have rows: "\<forall>r < 2 ^ ?n. length (H ! r) = 2 ^ ?n"
      unfolding H by (simp add: length_tabulate2_row)
    have zero: "\<forall>r < 2 ^ ?n. \<forall>c < 2 ^ ?n. r \<noteq> ?s \<longrightarrow> H ! r ! c = Finite 0"
      unfolding H by (simp add: tabulate2_nth)
    have ss: "H ! ?s ! ?s = fadd (Finite 0) x"
      unfolding H using sN by (simp add: tabulate2_nth start_row_def)
    have exact: "H ! ?s ! ?s = Finite (of_int (a * b))"
      if a: "signal_timings ! ?s = PyInt a" and b: "traffic_flows ! ?s = PyInt b"
        and small: "\<bar>a * b\<bar> \<le> 2 ^ 53" for a b
    proof -
      from small have "product_as_float (PyInt a) (PyInt b) = Inr (Finite (of_int (a * b)))"
        by (rule product_as_float_ints)
      with x have xv: "x = Finite (of_int (a * b))" by (simp add: a b)
      have "\<bar>0 + a * b\<bar> \<le> 2 ^ 53" using small by simp
      from fadd_of_int [OF this] have "fadd (Finite 0) (Finite (of_int (a * b)))
                                       = Finite (of_int (a * b))" by simp
      thus ?thesis by (simp only: ss xv)
    qed
    have travel: "H ! ?s ! j = fdiv (Finite (of_int (distances ! ?s ! j)))
                                (fdiv (Finite 40) (Finite 60))
                 \<and> H ! ?s ! j = Finite (of_int (distances ! ?s ! j) * 3 / 2)"
      if j: "j < ?n" and ne: "j \<noteq> ?s" for j
    proof -
      have "int j \<noteq> start" using ne assms(1) by auto
      with rd j have inside: "?s < length distances" "j < length (distances ! ?s)"
        by (auto simp: reads_ok_def)
      have "H ! ?s ! j = fadd (Finite 0) (travel_time_40 (distances ! ?s ! j))"
        unfolding H using sN jN [OF j] j ne by (simp add: tabulate2_nth start_row_def)
      hence e: "H ! ?s ! j = travel_time_40 (distances ! ?s ! j)"
        by (simp only: fadd_zero_travel_time_40)
      from e have "H ! ?s ! j = fdiv (Finite (of_int (distances ! ?s ! j)))
                                (fdiv (Finite 40) (Finite 60))"
        by (simp only: travel_time_40_def)
      moreover from e have "H ! ?s ! j = Finite (of_int (distances ! ?s ! j) * 3 / 2)"
        by (simp only: travel_time_40_table [OF inside])
      ultimately show ?thesis by blast
    qed
    have rest: "\<forall>j < 2 ^ ?n. ?n \<le> j \<longrightarrow> H ! ?s ! j = Finite 0"
      unfolding H using sN s(1) by (auto simp: tabulate2_nth start_row_def)
    from len rows zero x ss exact travel rest show ?thesis by blast
  qed
  from total props show ?thesis by blast
qed

theorem create_path_cost_hamiltonian_start_row_binary64_witness:
  "(0::int) \<le> 0 \<and> (0::int) < int (length [PyInt 1, PyInt 0, PyInt 0])
   \<and> length [PyInt 30, PyInt 60, PyInt 20] = length [PyInt 1, PyInt 0, PyInt 0]
   \<and> length [PyInt 1, PyInt 0, PyInt 0] \<le> length distances
   \<and> (\<exists>H. create_path_cost_hamiltonian 64 0 2 [PyInt 1, PyInt 0, PyInt 0]
            [PyInt 30, PyInt 60, PyInt 20] [False, True, False] = Inr H
          \<and> length H = 8 \<and> H ! 0 ! 0 = Finite 30 \<and> H ! 0 ! 1 = Finite (3 / 2)
          \<and> H ! 0 ! 2 = Finite 3 \<and> H ! 0 ! 3 = Finite 0 \<and> H ! 1 ! 1 = Finite 0)"
proof -
  let ?tf = "[PyInt 1, PyInt 0, PyInt 0]"
  let ?st = "[PyInt 30, PyInt 60, PyInt 20]"
  have h1: "(0::int) \<le> 0" by simp
  have h2: "(0::int) < int (length ?tf)" by simp
  have h3: "length ?st = length ?tf" by simp
  have h4: "length ?tf \<le> length distances" by (simp add: distances_def)
  have mem: "2 ^ length ?tf * 2 ^ length ?tf \<le> (64::nat)" by simp
  have "product_as_float (PyInt 30) (PyInt 1) = Inr (Finite 30)"
    using product_as_float_ints [of 30 1] by simp
  hence px: "\<exists>x. product_as_float (?st ! nat 0) (?tf ! nat 0) = Inr x" by simp
  note inst = create_path_cost_hamiltonian_start_row_binary64
                [OF h1 h2 h3, of 64 2 "[False, True, False]"]
  from inst h4 mem px obtain H
    where H: "create_path_cost_hamiltonian 64 0 2 ?tf ?st [False, True, False] = Inr H"
    by blast
  from inst H have len: "length H = 2 ^ length ?tf"
    and zero: "\<forall>r < 2 ^ length ?tf. \<forall>c < 2 ^ length ?tf. r \<noteq> nat 0 \<longrightarrow> H ! r ! c = Finite 0"
    and exact: "\<forall>a b. ?st ! nat 0 = PyInt a \<and> ?tf ! nat 0 = PyInt b \<and> \<bar>a * b\<bar> \<le> 2 ^ 53 \<longrightarrow>
                 H ! nat 0 ! nat 0 = Finite (of_int (a * b))"
    and travel: "\<forall>j < length ?tf. j \<noteq> nat 0 \<longrightarrow>
                 H ! nat 0 ! j = fdiv (Finite (of_int (distances ! nat 0 ! j)))
                                   (fdiv (Finite 40) (Finite 60))
                 \<and> H ! nat 0 ! j = Finite (of_int (distances ! nat 0 ! j) * 3 / 2)"
    and rest: "\<forall>j < 2 ^ length ?tf. length ?tf \<le> j \<longrightarrow> H ! nat 0 ! j = Finite 0"
    by blast+
  from len have l: "length H = 8" by simp
  from exact [rule_format, of 30 1] have w: "H ! 0 ! 0 = Finite 30" by simp
  have "(1::nat) < length ?tf" "(1::nat) \<noteq> nat 0" by simp_all
  with travel have "H ! nat 0 ! 1 = Finite (of_int (distances ! nat 0 ! 1) * 3 / 2)" by blast
  hence t1: "H ! 0 ! 1 = Finite (3 / 2)" by (simp add: distances_def)
  have "(2::nat) < length ?tf" "(2::nat) \<noteq> nat 0" by simp_all
  with travel have "H ! nat 0 ! 2 = Finite (of_int (distances ! nat 0 ! 2) * 3 / 2)" by blast
  hence t2: "H ! 0 ! 2 = Finite 3" by (simp add: distances_def)
  from rest [rule_format, of 3] have r3: "H ! 0 ! 3 = Finite 0" by simp
  from zero [rule_format, of 1 1] have z: "H ! 1 ! 1 = Finite 0" by simp
  from h1 h2 h3 h4 H l w t1 t2 r3 z show ?thesis by blast
qed

text \<open>With four intersections the reads of the 3 by 3 distance table leave it.\<close>

lemma four_nodes_raise:
  "create_path_cost_hamiltonian 256 0 3 [PyInt 1, PyInt 0, PyInt 0, PyInt 0]
     [PyInt 30, PyInt 60, PyInt 20, PyInt 20] [False, True, False, False]
   = Inl IndexError"
proof -
  have no: "\<not> reads_ok (nat 0) (length [PyInt 1, PyInt 0, PyInt 0, PyInt 0]) 0"
    unfolding reads_ok_def by (rule notI, drule spec [of _ 3]) (simp add: distances_def)
  have "product_as_float (PyInt 30) (PyInt 1) = Inr (Finite 30)"
    using product_as_float_ints [of 30 1] by simp
  hence x: "product_as_float ([PyInt 30, PyInt 60, PyInt 20, PyInt 20] ! nat 0)
              ([PyInt 1, PyInt 0, PyInt 0, PyInt 0] ! nat 0) = Inr (Finite 30)" by simp
  have "create_path_cost_hamiltonian 256 0 3 [PyInt 1, PyInt 0, PyInt 0, PyInt 0]
     [PyInt 30, PyInt 60, PyInt 20, PyInt 20] [False, True, False, False] =
     (if reads_ok (nat 0) (length [PyInt 1, PyInt 0, PyInt 0, PyInt 0]) 0
      then Inr (tabulate2 (2 ^ length [PyInt 1, PyInt 0, PyInt 0, PyInt 0])
             (\<lambda>r c. if r = nat 0
                then start_row (Finite 30) (length [PyInt 1, PyInt 0, PyInt 0, PyInt 0]) (nat 0) c
                else Finite 0))
      else Inl IndexError)"
    by (rule create_path_cost_hamiltonian_tabulate2 [OF _ _ _ _ x]) simp_all
  thus ?thesis by (simp only: no if_False)
qed

subsection \<open>Circuit construction\<close>

lemma rotation_body_cong:
  assumes "length H1 = length H2"
      and "\<forall>i < length H1. length (H1 ! i) = length (H2 ! i)"
      and "\<forall>i < length H1. i < length (H1 ! i) \<longrightarrow> H1 ! i ! i = H2 ! i ! i"
  shows "rotation_body H1 = rotation_body H2"
proof (intro ext)
  fix i c
  show "rotation_body H1 i c = rotation_body H2 i c"
    using assms by (auto simp: rotation_body_def py_get_def)
qed

lemma rotation_body_in_range:
  "i < length H \<Longrightarrow> i < length (H ! i) \<Longrightarrow>
   rotation_body H i c = Inr (c @ [RZ (H ! i ! i) i, RX (fdiv np_pi (Finite 2)) i])"
  by (simp add: rotation_body_def py_get_def)

lemma rotation_loop:
  assumes "n \<le> length H" "\<forall>i < n. i < length (H ! i)"
  shows "k \<le> n \<Longrightarrow>
         for_range (rotation_body H) [0..<k] c =
         Inr (c @ concat (map (\<lambda>i. [RZ (H ! i ! i) i, RX (fdiv np_pi (Finite 2)) i]) [0..<k]))"
proof (induction k)
  case 0
  then show ?case by simp
next
  case (Suc k)
  then have k: "k < length H" "k < length (H ! k)" "k \<le> n" using assms by auto
  have "for_range (rotation_body H) [0..<Suc k] c =
        rotation_body H k (c @ concat (map (\<lambda>i. [RZ (H ! i ! i) i, RX (fdiv np_pi (Finite 2)) i]) [0..<k]))"
    by (simp add: for_range_append Suc.IH [OF k(3)] split: sum.splits)
  also have "\<dots> = Inr (c @ concat (map (\<lambda>i. [RZ (H ! i ! i) i, RX (fdiv np_pi (Finite 2)) i]) [0..<Suc k]))"
    by (simp add: rotation_body_in_range [OF k(1,2)])
  finally show ?case .
qed

lemma concat_replicate_Suc:
  "concat (replicate (Suc p) xs) = concat (replicate p xs) @ xs"
  by (induction p) auto

lemma layers_loop:
  assumes "n \<le> length H" "\<forall>i < n. i < length (H ! i)"
  shows "for_range (\<lambda>layer. for_range (rotation_body H) [0..<n]) [0..<p] c =
         Inr (c @ concat (replicate p
                (concat (map (\<lambda>i. [RZ (H ! i ! i) i, RX (fdiv np_pi (Finite 2)) i]) [0..<n]))))"
proof (induction p)
  case 0
  then show ?case by simp
next
  case (Suc p)
  let ?layer = "concat (map (\<lambda>i. [RZ (H ! i ! i) i, RX (fdiv np_pi (Finite 2)) i]) [0..<n])"
  have "for_range (\<lambda>layer. for_range (rotation_body H) [0..<n]) [0..<Suc p] c =
        for_range (rotation_body H) [0..<n] (c @ concat (replicate p ?layer))"
    by (simp add: for_range_append Suc.IH split: sum.splits)
  also have "\<dots> = Inr ((c @ concat (replicate p ?layer)) @ ?layer)"
    by (rule rotation_loop [OF assms le_refl])
  also have "(c @ concat (replicate p ?layer)) @ ?layer = c @ concat (replicate (Suc p) ?layer)"
    by (simp only: concat_replicate_Suc append_assoc)
  finally show ?case .
qed

lemma qaoa_circuit_of_gates:
  assumes "n \<le> length H" "\<forall>i < n. i < length (H ! i)"
  shows "qaoa_circuit_of n H p =
         Inr (map Hadamard [0..<n]
              @ concat (replicate (nat p)
                  (concat (map (\<lambda>i. [RZ (H ! i ! i) i, RX (fdiv np_pi (Finite 2)) i]) [0..<n])))
              @ [MeasureAll])"
  by (simp add: qaoa_circuit_of_def layers_loop [OF assms])


text \<open>
  The circuits of the two scripts: the angles are the waiting costs, with the penalty in the
  signal script; in the path script only the start qubit has a nonzero angle, and the travel
  times of row \<open>start\<close> do not appear.
\<close>

lemma qaoa_circuit_of_tabulate2:
  assumes "n \<le> N"
  shows "qaoa_circuit_of n (tabulate2 N g) p =
         Inr (map Hadamard [0..<n]
              @ concat (replicate (nat p)
                  (concat (map (\<lambda>i. [RZ (g i i) i, RX (fdiv np_pi (Finite 2)) i]) [0..<n])))
              @ [MeasureAll])"
proof -
  have lt: "i < N" if "i < n" for i using that assms by simp
  have meq: "map (\<lambda>i. [RZ (tabulate2 N g ! i ! i) i, RX (fdiv np_pi (Finite 2)) i]) [0..<n]
        = map (\<lambda>i. [RZ (g i i) i, RX (fdiv np_pi (Finite 2)) i]) [0..<n]"
    by (rule map_cong) (simp_all add: tabulate2_nth lt)
  have "qaoa_circuit_of n (tabulate2 N g) p =
         Inr (map Hadamard [0..<n]
              @ concat (replicate (nat p)
                  (concat (map (\<lambda>i. [RZ (tabulate2 N g ! i ! i) i, RX (fdiv np_pi (Finite 2)) i]) [0..<n])))
              @ [MeasureAll])"
    using assms by (intro qaoa_circuit_of_gates) (simp_all add: length_tabulate2 length_tabulate2_row lt)
  then show ?thesis by (simp only: meq)
qed

lemma qaoa_traffic_optimization_circuit_gates:
  assumes "length st = length tf" "length ef = length tf"
      and "2 ^ length tf * 2 ^ length tf \<le> memory"
      and "\<forall>i<length tf. product_as_float (st ! i) (tf ! i) = Inr (x i)"
  shows "qaoa_traffic_optimization_circuit memory tf st ef p =
         Inr (map Hadamard [0..<length tf]
              @ concat (replicate (nat p)
                  (concat (map (\<lambda>i. [RZ (cost_cell (x i) (ef ! i)) i,
                                       RX (fdiv np_pi (Finite 2)) i]) [0..<length tf])))
              @ [MeasureAll])"
proof -
  have res: "create_cost_hamiltonian memory tf st ef =
         Inr (tabulate2 (2 ^ length tf) (\<lambda>r c. if r = c \<and> r < length tf
                then cost_cell (x r) (ef ! r) else Finite 0))"
    using assms by (intro create_cost_hamiltonian_tabulate2) simp_all
  have meq: "map (\<lambda>i. [RZ (if i = i \<and> i < length tf
                then cost_cell (x i) (ef ! i) else Finite 0) i, RX (fdiv np_pi (Finite 2)) i])
            [0..<length tf]
        = map (\<lambda>i. [RZ (cost_cell (x i) (ef ! i)) i, RX (fdiv np_pi (Finite 2)) i])
            [0..<length tf]"
    by (rule map_cong) simp_all
  have "qaoa_traffic_optimization_circuit memory tf st ef p =
        qaoa_circuit_of (length tf) (tabulate2 (2 ^ length tf) (\<lambda>r c. if r = c \<and> r < length tf
                then cost_cell (x r) (ef ! r) else Finite 0)) p"
    by (simp add: qaoa_traffic_optimization_circuit_def res)
  then show ?thesis
    by (simp only: qaoa_circuit_of_tabulate2 [OF less_imp_le [OF less_exp]] meq)
qed

lemma qaoa_path_optimization_circuit_gates:
  assumes "0 \<le> start" "start < int (length tf)" "length st = length tf"
      and "length tf \<le> length distances"
      and "2 ^ length tf * 2 ^ length tf \<le> memory"
      and "product_as_float (st ! nat start) (tf ! nat start) = Inr x"
  shows "qaoa_path_optimization_circuit memory start e tf st ef p =
         Inr (map Hadamard [0..<length tf]
              @ concat (replicate (nat p)
                  (concat (map (\<lambda>i. [RZ (if i = nat start then fadd (Finite 0) x else Finite 0) i,
                                       RX (fdiv np_pi (Finite 2)) i]) [0..<length tf])))
              @ [MeasureAll])"
proof -
  from assms have s: "nat start < length tf" "nat start < length st" by auto
  have res: "create_path_cost_hamiltonian memory start e tf st ef =
         Inr (tabulate2 (2 ^ length tf)
               (\<lambda>r c. if r = nat start then start_row x (length tf) (nat start) c else Finite 0))"
    using create_path_cost_hamiltonian_tabulate2 [OF assms(1,2) s(2) assms(5,6), of e ef]
      reads_ok_distances [OF s(1) assms(4)]
    by simp
  have meq: "map (\<lambda>i. [RZ (if i = nat start then start_row x (length tf) (nat start) i
                            else Finite 0) i,
                   RX (fdiv np_pi (Finite 2)) i]) [0..<length tf]
        = map (\<lambda>i. [RZ (if i = nat start then fadd (Finite 0) x else Finite 0) i,
                   RX (fdiv np_pi (Finite 2)) i]) [0..<length tf]"
    by (rule map_cong) (simp_all add: start_row_def)
  have "qaoa_path_optimization_circuit memory start e tf st ef p =
        qaoa_circuit_of (length tf) (tabulate2 (2 ^ length tf)
               (\<lambda>r c. if r = nat start then start_row x (length tf) (nat start) c
                       else Finite 0)) p"
    by (simp add: qaoa_path_optimization_circuit_def res)
  then show ?thesis
    by (simp only: qaoa_circuit_of_tabulate2 [OF less_imp_le [OF less_exp]] meq)
qed

text \<open>
  Claim C7. The gate sequence depends on the cost matrix through its diagonal only: two
  matrices of the same shape that agree on every diagonal entry give the same result of the
  circuit construction. For a matrix that covers the \<open>n\<close> qubits the sequence is one Hadamard
  per qubit, then \<open>p\<close> layers, each with an RZ of angle \<open>[i][i]\<close> and an RX of the constant
  angle \<^verbatim>\<open>np.pi / 2\<close> on every qubit \<open>i\<close>, then the measurement.
\<close>

theorem qaoa_circuit_reads_only_diagonal:
  "(length H1 = length H2
      \<and> (\<forall>i < length H1. length (H1 ! i) = length (H2 ! i))
      \<and> (\<forall>i < length H1. i < length (H1 ! i) \<longrightarrow> H1 ! i ! i = H2 ! i ! i)
    \<longrightarrow> qaoa_circuit_of n H1 p = qaoa_circuit_of n H2 p)
   \<and> (n \<le> length H1 \<and> (\<forall>i < n. i < length (H1 ! i))
    \<longrightarrow> qaoa_circuit_of n H1 p =
          Inr (map Hadamard [0..<n]
               @ concat (replicate (nat p)
                   (concat (map (\<lambda>i. [RZ (H1 ! i ! i) i, RX (fdiv np_pi (Finite 2)) i]) [0..<n])))
               @ [MeasureAll]))"
proof (intro conjI impI)
  assume "length H1 = length H2
      \<and> (\<forall>i < length H1. length (H1 ! i) = length (H2 ! i))
      \<and> (\<forall>i < length H1. i < length (H1 ! i) \<longrightarrow> H1 ! i ! i = H2 ! i ! i)"
  then have "rotation_body H1 = rotation_body H2"
    by (intro rotation_body_cong) blast+
  then show "qaoa_circuit_of n H1 p = qaoa_circuit_of n H2 p"
    by (simp add: qaoa_circuit_of_def)
next
  assume "n \<le> length H1 \<and> (\<forall>i < n. i < length (H1 ! i))"
  then show "qaoa_circuit_of n H1 p =
          Inr (map Hadamard [0..<n]
               @ concat (replicate (nat p)
                   (concat (map (\<lambda>i. [RZ (H1 ! i ! i) i, RX (fdiv np_pi (Finite 2)) i]) [0..<n])))
               @ [MeasureAll])"
    by (intro qaoa_circuit_of_gates) blast+
qed

theorem qaoa_circuit_reads_only_diagonal_witness:
  "length [[Finite 5, Finite 7], [Finite 0, Finite 0]] = length [[Finite 5, Finite 0], [Finite 9, Finite 0]]
   \<and> map length [[Finite 5, Finite 7], [Finite 0, Finite 0]] = map length [[Finite 5, Finite 0], [Finite 9, Finite 0]]
   \<and> diagonal 2 [[Finite 5, Finite 7], [Finite 0, Finite 0]] = diagonal 2 [[Finite 5, Finite 0], [Finite 9, Finite 0]]
   \<and> 1 \<le> length [[Finite 5, Finite 7], [Finite 0, Finite 0]]
   \<and> qaoa_circuit_of 1 [[Finite 5, Finite 7], [Finite 0, Finite 0]] 2 = qaoa_circuit_of 1 [[Finite 5, Finite 0], [Finite 9, Finite 0]] 2
   \<and> qaoa_circuit_of 1 [[Finite 5, Finite 7], [Finite 0, Finite 0]] 2 =
       Inr [Hadamard 0, RZ (Finite 5) 0, RX (fdiv np_pi (Finite 2)) 0, RZ (Finite 5) 0, RX (fdiv np_pi (Finite 2)) 0, MeasureAll]"
proof -
  let ?H1 = "[[Finite 5, Finite 7], [Finite 0, Finite 0]]"
  let ?H2 = "[[Finite 5, Finite 0], [Finite 9, Finite 0]]"
  have h1: "length ?H1 = length ?H2" by simp
  have h2: "\<forall>i < length ?H1. length (?H1 ! i) = length (?H2 ! i)"
    by (simp add: nth_Cons' )
  have h3: "\<forall>i < length ?H1. i < length (?H1 ! i) \<longrightarrow> ?H1 ! i ! i = ?H2 ! i ! i"
    by (simp add: nth_Cons' )
  have h4: "1 \<le> length ?H1" by simp
  have h5: "\<forall>i < 1. i < length (?H1 ! i)" by simp
  note inst = qaoa_circuit_reads_only_diagonal [of ?H1 ?H2 1 2]
  from inst h1 h2 h3 have eq: "qaoa_circuit_of 1 ?H1 2 = qaoa_circuit_of 1 ?H2 2"
    by blast
  from inst h4 h5 have "qaoa_circuit_of 1 ?H1 2 =
          Inr (map Hadamard [0..<1]
               @ concat (replicate (nat 2)
                   (concat (map (\<lambda>i. [RZ (?H1 ! i ! i) i, RX (fdiv np_pi (Finite 2)) i]) [0..<1])))
               @ [MeasureAll])"
    by blast
  then have gates: "qaoa_circuit_of 1 ?H1 2 =
       Inr [Hadamard 0, RZ (Finite 5) 0, RX (fdiv np_pi (Finite 2)) 0, RZ (Finite 5) 0, RX (fdiv np_pi (Finite 2)) 0, MeasureAll]"
    by (simp add: numeral_2_eq_2)
  have shape: "map length ?H1 = map length ?H2" by simp
  have diag: "diagonal 2 ?H1 = diagonal 2 ?H2"
    by (simp add: diagonal_def upt_rec)
  from h1 shape diag h4 eq gates show ?thesis by blast
qed


subsection \<open>Choice of the bit-string\<close>

lemma py_max_Max: "xs \<noteq> [] \<Longrightarrow> py_max xs = Inr (Max (set xs))"
proof (cases xs)
  case Nil
  assume "xs \<noteq> []"
  with Nil show ?thesis by simp
next
  case (Cons x ys)
  then show ?thesis by (simp only: py_max.simps Max.set_eq_fold)
qed

lemma first_with_count_found:
  "set ks \<subseteq> fst ` set d \<Longrightarrow> k < length ks \<Longrightarrow> map_of d (ks ! k) = Some v \<Longrightarrow>
   \<forall>j<k. map_of d (ks ! j) \<noteq> Some v \<Longrightarrow>
   first_with_count d ks v = Inr (ks ! k)"
proof (induction ks arbitrary: k)
  case Nil
  then show ?case by simp
next
  case (Cons a ks)
  show ?case
  proof (cases k)
    case 0
    with Cons.prems show ?thesis by simp
  next
    case (Suc k')
    from Cons.prems(1) have "a \<in> fst ` set d" by simp
    then have "map_of d a \<noteq> None" by (simp add: map_of_eq_None_iff)
    then obtain c where c: "map_of d a = Some c" by blast
    from Cons.prems(4) Suc have "map_of d a \<noteq> Some v" by auto
    with c have ne: "c \<noteq> v" by auto
    have "first_with_count d ks v = Inr (ks ! k')"
      using Cons.prems Suc by (intro Cons.IH) auto
    with c ne Suc show ?thesis by simp
  qed
qed

lemma map_of_distinct_nth:
  "distinct (map fst d) \<Longrightarrow> j < length d \<Longrightarrow> map_of d (fst (d ! j)) = Some (snd (d ! j))"
  by (simp add: map_of_is_SomeI)

text \<open>
  Claim C6. For a non-empty frequency mapping (an association list with distinct keys), the
  bit-string chosen for decoding is the key at the first position, in insertion order, whose
  count equals the maximum count of the mapping.
\<close>

theorem optimum_key_first_maximal:
  assumes "d \<noteq> []" and "distinct (map fst d)"
  shows "\<exists>k < length d. optimum_key d = Inr (fst (d ! k))
           \<and> snd (d ! k) = Max (set (map snd d))
           \<and> (\<forall>j < k. snd (d ! j) \<noteq> Max (set (map snd d)))"
proof -
  let ?v = "Max (set (map snd d))"
  from assms(1) have "?v \<in> set (map snd d)" by (intro Max_in) simp_all
  then obtain i where i: "i < length d" "snd (d ! i) = ?v"
    by (auto simp: in_set_conv_nth)
  define k where "k = (LEAST i. i < length d \<and> snd (d ! i) = ?v)"
  from i have k: "k < length d \<and> snd (d ! k) = ?v"
    unfolding k_def by (intro LeastI [of "\<lambda>i. i < length d \<and> snd (d ! i) = ?v" i]) simp
  have first: "\<forall>j < k. snd (d ! j) \<noteq> ?v"
  proof (intro allI impI notI)
    fix j assume j: "j < k" and eq: "snd (d ! j) = ?v"
    with k have "j < length d \<and> snd (d ! j) = ?v" by simp
    then have "k \<le> j" unfolding k_def by (rule Least_le)
    with j show False by simp
  qed
  have "first_with_count d (map fst d) ?v = Inr (map fst d ! k)"
  proof (rule first_with_count_found)
    show "set (map fst d) \<subseteq> fst ` set d" by simp
    show "k < length (map fst d)" using k by simp
    show "map_of d (map fst d ! k) = Some ?v"
      using k map_of_distinct_nth [OF assms(2), of k] by simp
    show "\<forall>j<k. map_of d (map fst d ! j) \<noteq> Some ?v"
    proof (intro allI impI)
      fix j assume j: "j < k"
      with k have "j < length d" by simp
      with first j map_of_distinct_nth [OF assms(2), of j]
      show "map_of d (map fst d ! j) \<noteq> Some ?v" by simp
    qed
  qed
  moreover from assms(1) have "py_max (map snd d) = Inr ?v"
    by (intro py_max_Max) simp
  ultimately have "optimum_key d = Inr (fst (d ! k))"
    using k by (simp add: optimum_key_def)
  with k first show ?thesis by blast
qed


theorem optimum_key_first_maximal_witness:
  "[(''010'', 3), (''101'', 7), (''111'', 7 :: int)] \<noteq> []
   \<and> distinct (map fst [(''010'', 3), (''101'', 7), (''111'', 7 :: int)])
   \<and> optimum_key [(''010'', 3), (''101'', 7), (''111'', 7)] = Inr ''101''"
proof -
  let ?d = "[(''010'', 3), (''101'', 7), (''111'', 7 :: int)]"
  have ne: "?d \<noteq> []" by simp
  have dist: "distinct (map fst ?d)" by simp
  have mx: "Max (set (map snd ?d)) = 7" by simp
  from optimum_key_first_maximal [OF ne dist] obtain k
    where k: "k < length ?d" and key: "optimum_key ?d = Inr (fst (?d ! k))"
      and top: "snd (?d ! k) = Max (set (map snd ?d))"
      and first: "\<forall>j < k. snd (?d ! j) \<noteq> Max (set (map snd ?d))"
    by blast
  from k have "k = 0 \<or> k = 1 \<or> k = 2" by auto
  then have "k = 1"
  proof (elim disjE)
    assume "k = 0"
    with top mx show ?thesis by simp
  next
    assume "k = 1"
    then show ?thesis .
  next
    assume "k = 2"
    with first [rule_format, of 1] mx show ?thesis by simp
  qed
  with key have "optimum_key ?d = Inr ''101''" by simp
  with ne dist show ?thesis by blast
qed

lemma signal_main_raises:
  "optimum_key d = Inr s \<Longrightarrow> decode_signals s = Inl e \<Longrightarrow> signal_main d = Inl e"
  by (simp add: signal_main_def)

end
